theory Spec2Isabelle
  imports Main "HOL-Library.Monad_Syntax"
begin

section \<open>Strings and characters of the host language\<close>

text \<open>
  The program is \<^verbatim>\<open>src/loucura.jsx\<close>.  A string of the program is a sequence of code units;
  a \<^typ>\<open>char\<close> stands for one code unit in the range U+0000 to U+00FF.  The tables below
  are the restrictions of the language's tables to that range.
\<close>

abbreviation LF :: char where "LF \<equiv> CHR 0x0A"
abbreviation CR :: char where "CR \<equiv> CHR 0x0D"
abbreviation DQ :: char where "DQ \<equiv> CHR 0x22"

text \<open>White space and line terminators: the class \<^verbatim>\<open>\s\<close> and what \<^verbatim>\<open>trim\<close> removes.\<close>

definition is_space :: "char \<Rightarrow> bool" where
  "is_space c = (c \<in> set [CHR 0x09, CHR 0x0A, CHR 0x0B, CHR 0x0C, CHR 0x0D, CHR 0x20, CHR 0xA0])"

text \<open>Word characters, the class behind \<^verbatim>\<open>\b\<close>: letters, digits and the underscore.\<close>

definition is_digit :: "char \<Rightarrow> bool" where
  "is_digit c = (let n = (of_char c :: nat) in 48 \<le> n \<and> n \<le> 57)"

definition is_word :: "char \<Rightarrow> bool" where
  "is_word c = (let n = (of_char c :: nat) in
     (65 \<le> n \<and> n \<le> 90) \<or> (97 \<le> n \<and> n \<le> 122) \<or> (48 \<le> n \<and> n \<le> 57) \<or> n = 95)"

text \<open>
  Case folding of a pattern with the flag \<^verbatim>\<open>i\<close>: each code unit is mapped to its upper case
  when that is again one code unit.  In the ranges concerned the upper case is 32 below the
  lower case, which is the bit of weight 32.
\<close>

definition canonicalize :: "char \<Rightarrow> char" where
  "canonicalize c = (let n = (of_char c :: nat) in
     if (97 \<le> n \<and> n \<le> 122) \<or> (224 \<le> n \<and> n \<le> 254 \<and> n \<noteq> 247)
     then (case c of Char b0 b1 b2 b3 b4 b5 b6 b7 \<Rightarrow> Char b0 b1 b2 b3 b4 False b6 b7) else c)"

text \<open>\<^verbatim>\<open>toLowerCase\<close>, one code unit at a time.\<close>

definition lower_char :: "char \<Rightarrow> char" where
  "lower_char c = (let n = (of_char c :: nat) in
     if (65 \<le> n \<and> n \<le> 90) \<or> (192 \<le> n \<and> n \<le> 222 \<and> n \<noteq> 215)
     then (case c of Char b0 b1 b2 b3 b4 b5 b6 b7 \<Rightarrow> Char b0 b1 b2 b3 b4 True b6 b7) else c)"

definition toLowerCase :: "string \<Rightarrow> string" where
  "toLowerCase s = map lower_char s"

definition trim :: "string \<Rightarrow> string" where
  "trim s = rev (dropWhile is_space (rev (dropWhile is_space s)))"

text \<open>\<^verbatim>\<open>s.split("\n")\<close>: the pieces between line feeds; the empty string gives one empty piece.\<close>

fun split_lf :: "string \<Rightarrow> string \<Rightarrow> string list" where
  "split_lf cur [] = [cur]"
| "split_lf cur (c # cs) = (if c = LF then cur # split_lf [] cs else split_lf (cur @ [c]) cs)"

section \<open>Regular expressions\<close>

text \<open>
  The patterns of the program are sequences of the items below.  A set of characters is a literal,
  the class \<^verbatim>\<open>\s\<close> or a negated one-character class such as \<^verbatim>\<open>[^>]\<close>.
\<close>

datatype cset = Lit char | Ws | Except char

datatype item = One cset | Star cset | Plus cset | Boundary | End | Open | Close

fun cset_mem :: "bool \<Rightarrow> cset \<Rightarrow> char \<Rightarrow> bool" where
  "cset_mem ic (Lit a) c = (if ic then canonicalize c = canonicalize a else c = a)"
| "cset_mem ic Ws c = is_space c"
| "cset_mem ic (Except a) c = (\<not> (if ic then canonicalize c = canonicalize a else c = a))"

definition lits :: "string \<Rightarrow> item list" where
  "lits s = map (\<lambda>c. One (Lit c)) s"

definition word_at :: "char option \<Rightarrow> bool" where
  "word_at p = (case p of None \<Rightarrow> False | Some c \<Rightarrow> is_word c)"

text \<open>
  The backtracking matcher, anchored at the current position.  \<open>prev\<close> is the character before
  the position, \<open>i\<close> the number of characters consumed, \<open>os\<close> the starts of the groups that
  are open, \<open>caps\<close> the spans of the groups that are closed.  A starred or plussed set is greedy:
  the longest run is tried first and shorter ones after it.  The result is the length of the
  match and the spans of its groups.
\<close>

fun rx_match :: "bool \<Rightarrow> item list \<Rightarrow> char option \<Rightarrow> string \<Rightarrow> nat \<Rightarrow> nat list \<Rightarrow> (nat \<times> nat) list
    \<Rightarrow> (nat \<times> (nat \<times> nat) list) option" where
  "rx_match ic [] prev s i os caps = Some (i, caps)"
| "rx_match ic (Open # r) prev s i os caps = rx_match ic r prev s i (i # os) caps"
| "rx_match ic (Close # r) prev s i os caps =
     (case os of [] \<Rightarrow> rx_match ic r prev s i [] caps
      | b # os' \<Rightarrow> rx_match ic r prev s i os' (caps @ [(b, i)]))"
| "rx_match ic (Boundary # r) prev s i os caps =
     (if word_at prev \<noteq> word_at (case s of [] \<Rightarrow> None | c # _ \<Rightarrow> Some c)
      then rx_match ic r prev s i os caps else None)"
| "rx_match ic (End # r) prev s i os caps =
     (if s = [] then rx_match ic r prev s i os caps else None)"
| "rx_match ic (One a # r) prev [] i os caps = None"
| "rx_match ic (One a # r) prev (c # cs) i os caps =
     (if cset_mem ic a c then rx_match ic r (Some c) cs (Suc i) os caps else None)"
| "rx_match ic (Plus a # r) prev [] i os caps = None"
| "rx_match ic (Plus a # r) prev (c # cs) i os caps =
     (if cset_mem ic a c then rx_match ic (Star a # r) (Some c) cs (Suc i) os caps else None)"
| "rx_match ic (Star a # r) prev [] i os caps = rx_match ic r prev [] i os caps"
| "rx_match ic (Star a # r) prev (c # cs) i os caps =
     (if cset_mem ic a c
      then (case rx_match ic (Star a # r) (Some c) cs (Suc i) os caps of
              Some m \<Rightarrow> Some m
            | None \<Rightarrow> rx_match ic r prev (c # cs) i os caps)
      else rx_match ic r prev (c # cs) i os caps)"

text \<open>A pattern: its items and its flag \<^verbatim>\<open>i\<close>.\<close>

record regex =
  items :: "item list"
  ignoreCase :: bool

text \<open>One attempt at a position: the matched text, the rest, and the texts of the groups.\<close>

definition rx_at :: "regex \<Rightarrow> char option \<Rightarrow> string \<Rightarrow> (string \<times> string \<times> string list) option" where
  "rx_at re prev s =
     (case rx_match (ignoreCase re) (items re) prev s 0 [] [] of
        None \<Rightarrow> None
      | Some (n, caps) \<Rightarrow> Some (take n s, drop n s, map (\<lambda>(a, b). take (b - a) (drop a s)) caps))"

text \<open>
  \<^verbatim>\<open>exec\<close> without the flag \<^verbatim>\<open>g\<close>: the leftmost position with a match.  The result is the
  text before the match, the match, the text after it and the groups.
\<close>

fun rx_search :: "regex \<Rightarrow> string \<Rightarrow> string \<Rightarrow> (string \<times> string \<times> string \<times> string list) option" where
  "rx_search re pre s =
     (case rx_at re (if pre = [] then None else Some (last pre)) s of
        Some (m, post, groups) \<Rightarrow> Some (pre, m, post, groups)
      | None \<Rightarrow> (case s of [] \<Rightarrow> None | c # cs \<Rightarrow> rx_search re (pre @ [c]) cs))"

text \<open>
  The expansion of a replacement string (\<^verbatim>\<open>GetSubstitution\<close>, no named groups):
  \<^verbatim>\<open>$$\<close> is a dollar sign, \<^verbatim>\<open>$&\<close> the match, \<^verbatim>\<open>$`\<close> the text before it, \<^verbatim>\<open>$'\<close> the text
  after it, \<^verbatim>\<open>$n\<close> and \<^verbatim>\<open>$nn\<close> the group of that number when there is one; every other
  character stands for itself.
\<close>

definition digit_val :: "char \<Rightarrow> nat" where
  "digit_val c = (of_char c :: nat) - 48"

fun substitute :: "string \<Rightarrow> string \<Rightarrow> string \<Rightarrow> string list \<Rightarrow> string \<Rightarrow> string" where
  "substitute pre m post groups [] = []"
| "substitute pre m post groups [c] = [c]"
| "substitute pre m post groups (c # d # t) =
     (if c \<noteq> CHR ''$'' then c # substitute pre m post groups (d # t)
      else if d = CHR ''$'' then CHR ''$'' # substitute pre m post groups t
      else if d = CHR 0x60 then pre @ substitute pre m post groups t
      else if d = CHR ''&'' then m @ substitute pre m post groups t
      else if d = CHR 0x27 then post @ substitute pre m post groups t
      else if is_digit d then
        (case t of
           e # t' \<Rightarrow>
             if is_digit e \<and> 1 \<le> 10 * digit_val d + digit_val e
                \<and> 10 * digit_val d + digit_val e \<le> length groups
             then groups ! (10 * digit_val d + digit_val e - 1) @ substitute pre m post groups t'
             else if 1 \<le> digit_val d \<and> digit_val d \<le> length groups
             then groups ! (digit_val d - 1) @ substitute pre m post groups t
             else CHR ''$'' # d # substitute pre m post groups t
         | [] \<Rightarrow>
             if 1 \<le> digit_val d \<and> digit_val d \<le> length groups
             then groups ! (digit_val d - 1)
             else [CHR ''$'', d])
      else CHR ''$'' # substitute pre m post groups (d # t))"

text \<open>
  \<^verbatim>\<open>s.replace(re, template)\<close> for a pattern without the flag \<^verbatim>\<open>g\<close>: the first match only.
\<close>

definition replace_first :: "regex \<Rightarrow> string \<Rightarrow> string \<Rightarrow> string" where
  "replace_first re template s =
     (case rx_search re [] s of
        None \<Rightarrow> s
      | Some (pre, m, post, groups) \<Rightarrow> pre @ substitute pre m post groups template @ post)"

text \<open>
  \<^verbatim>\<open>s.replace(re, template)\<close> with the flag \<^verbatim>\<open>g\<close>: every match from left to right, the
  search going on behind each match; after an empty match it moves on by one character.
  \<open>pre\<close> is the text already passed.
\<close>

function replace_all :: "regex \<Rightarrow> string \<Rightarrow> string \<Rightarrow> string \<Rightarrow> string" where
  "replace_all re template pre s =
     (case rx_at re (if pre = [] then None else Some (last pre)) s of
        None \<Rightarrow> (case s of [] \<Rightarrow> [] | c # cs \<Rightarrow> c # replace_all re template (pre @ [c]) cs)
      | Some (m, post, groups) \<Rightarrow>
          substitute pre m post groups template @
          (if m = [] then (case s of [] \<Rightarrow> [] | c # cs \<Rightarrow> c # replace_all re template (pre @ [c]) cs)
           else replace_all re template (pre @ m) (drop (length m) s)))"
  by pat_completeness auto
termination
  by (relation "measure (\<lambda>(re, template, pre, s). length s)")
     (auto simp: rx_at_def split: option.splits)

text \<open>
  The same with a function in place of the template.  The function gets the matched text;
  an exception raised by it (the result \<open>None\<close>) ends the whole replacement.
\<close>

function replace_all_fn :: "regex \<Rightarrow> (string \<Rightarrow> string option) \<Rightarrow> string \<Rightarrow> string \<Rightarrow> string option" where
  "replace_all_fn re f pre s =
     (case rx_at re (if pre = [] then None else Some (last pre)) s of
        None \<Rightarrow> (case s of [] \<Rightarrow> Some []
                 | c # cs \<Rightarrow> do { out \<leftarrow> replace_all_fn re f (pre @ [c]) cs; Some (c # out) })
      | Some (m, post, groups) \<Rightarrow>
          do { r \<leftarrow> f m;
               out \<leftarrow> (if m = [] then (case s of [] \<Rightarrow> Some []
                          | c # cs \<Rightarrow> do { out \<leftarrow> replace_all_fn re f (pre @ [c]) cs; Some (c # out) })
                        else replace_all_fn re f (pre @ m) (drop (length m) s));
               Some (r @ out) })"
  by pat_completeness auto
termination
  by (relation "measure (\<lambda>(re, f, pre, s). length s)")
     (auto simp: rx_at_def split: option.splits)

declare rx_search.simps [simp del]
declare replace_all.simps [simp del]
declare replace_all_fn.simps [simp del]

section \<open>The table parser\<close>

text \<open>
  \<^verbatim>\<open>parseCSVLine\<close>: the loop over the characters of one line, with the state \<open>inQuotes\<close>,
  the field \<open>cur\<close> being read and the fields \<open>result\<close> already closed.  A quote that is
  followed by a quote inside a quoted field consumes both.
\<close>

fun parseCSVLine_loop :: "string \<Rightarrow> bool \<Rightarrow> string \<Rightarrow> string list \<Rightarrow> string list" where
  "parseCSVLine_loop [] inQuotes cur result = result @ [cur]"
| "parseCSVLine_loop (ch # rest) inQuotes cur result =
     (if ch = DQ then
        (case rest of
           [] \<Rightarrow> parseCSVLine_loop rest (\<not> inQuotes) cur result
         | nxt # rest' \<Rightarrow>
             if inQuotes \<and> nxt = DQ then parseCSVLine_loop rest' inQuotes (cur @ [DQ]) result
             else parseCSVLine_loop rest (\<not> inQuotes) cur result)
      else if ch = CHR '','' \<and> \<not> inQuotes then parseCSVLine_loop rest inQuotes [] (result @ [cur])
      else parseCSVLine_loop rest inQuotes (cur @ [ch]) result)"

definition parseCSVLine :: "string \<Rightarrow> string list" where
  "parseCSVLine line = parseCSVLine_loop line False [] []"

text \<open>
  A row is an object whose properties are strings.  Assigning to the key \<^verbatim>\<open>__proto__\<close> a
  string changes nothing; every other key becomes a property of the row.
\<close>

type_synonym row = "string \<rightharpoonup> string"

definition row_set :: "row \<Rightarrow> string \<Rightarrow> string \<Rightarrow> row" where
  "row_set obj k v = (if k = ''__proto__'' then obj else obj(k \<mapsto> v))"

text \<open>\<^verbatim>\<open>while (values.length < headers.length) values.push("")\<close>\<close>

function pad_values :: "nat \<Rightarrow> string list \<Rightarrow> string list" where
  "pad_values n values = (if length values < n then pad_values n (values @ [[]]) else values)"
  by pat_completeness auto
termination
  by (relation "measure (\<lambda>(n, values). n - length values)") auto

declare pad_values.simps [simp del]

text \<open>
  The inner loop assigns \<open>values[j]\<close> to the key \<open>headers[j]\<close> for each \<open>j\<close> below the
  number of headers; after the padding there is a value for each of them.
\<close>

fun assign_fields :: "string list \<Rightarrow> string list \<Rightarrow> row \<Rightarrow> row" where
  "assign_fields (h # headers) (v # values) obj = assign_fields headers values (row_set obj h v)"
| "assign_fields headers values obj = obj"

definition crlfRegex :: regex where
  "crlfRegex = \<lparr>items = [One (Lit CR), One (Lit LF)], ignoreCase = False\<rparr>"

definition parseCSV :: "string \<Rightarrow> row list" where
  "parseCSV text =
     (let lines = filter (\<lambda>l. trim l \<noteq> []) (split_lf [] (replace_all crlfRegex [LF] [] text))
      in case lines of
           [] \<Rightarrow> []
         | first # others \<Rightarrow>
             (let headers = map (\<lambda>h. toLowerCase (trim h)) (parseCSVLine first)
              in map (\<lambda>line. assign_fields headers
                                (pad_values (length headers) (parseCSVLine line)) Map.empty)
                     others))"

section \<open>The lookup index\<close>

text \<open>
  The entries of the index are the objects \<^verbatim>\<open>{ value, region, label }\<close> of \<open>byId\<close> and
  \<^verbatim>\<open>{ value, region, id }\<close> of \<open>byLabel\<close>: a property that the object does not have is
  \<open>None\<close>.
\<close>

record entity =
  e_value :: string
  e_region :: string
  e_label :: "string option"
  e_id :: "string option"

definition entity_prop :: "entity \<Rightarrow> string \<Rightarrow> string option" where
  "entity_prop e k =
     (if k = ''value'' then Some (e_value e)
      else if k = ''region'' then Some (e_region e)
      else if k = ''label'' then e_label e
      else if k = ''id'' then e_id e
      else None)"

text \<open>
  \<open>byId\<close> and \<open>byLabel\<close> start as the empty object literal \<^verbatim>\<open>{}\<close>, so they inherit from
  the prototype of all objects.  An assignment to the key \<^verbatim>\<open>__proto__\<close> replaces the
  prototype by the entry assigned; every other key becomes a property of the object itself.
\<close>

record jsobj =
  own :: "string \<rightharpoonup> entity"
  proto :: "entity option"

definition empty_obj :: jsobj where
  "empty_obj = \<lparr>own = Map.empty, proto = None\<rparr>"

definition js_set :: "jsobj \<Rightarrow> string \<Rightarrow> entity \<Rightarrow> jsobj" where
  "js_set obj k e = (if k = ''__proto__'' then obj\<lparr>proto := Some e\<rparr> else obj\<lparr>own := (own obj)(k \<mapsto> e)\<rparr>)"

text \<open>
  What a read \<open>obj[k]\<close> can give: nothing, an entry, a string (a property of an entry that
  has become the prototype), or one of the members of the prototype of all objects.
\<close>

datatype jsval = JUndefined | JString string | JBuiltin | JEntity entity

definition builtin_keys :: "string list" where
  "builtin_keys = [''constructor'', ''hasOwnProperty'', ''isPrototypeOf'', ''propertyIsEnumerable'',
     ''toLocaleString'', ''toString'', ''valueOf'', ''__defineGetter__'', ''__defineSetter__'',
     ''__lookupGetter__'', ''__lookupSetter__'']"

definition js_get :: "jsobj \<Rightarrow> string \<Rightarrow> jsval" where
  "js_get obj k =
     (if k = ''__proto__'' then (case proto obj of Some e \<Rightarrow> JEntity e | None \<Rightarrow> JBuiltin)
      else case own obj k of
             Some e \<Rightarrow> JEntity e
           | None \<Rightarrow>
               (case (case proto obj of Some e \<Rightarrow> entity_prop e k | None \<Rightarrow> None) of
                  Some v \<Rightarrow> JString v
                | None \<Rightarrow> if k \<in> set builtin_keys then JBuiltin else JUndefined))"

definition truthy :: "jsval \<Rightarrow> bool" where
  "truthy v = (case v of JUndefined \<Rightarrow> False | JString s \<Rightarrow> s \<noteq> [] | JBuiltin \<Rightarrow> True | JEntity e \<Rightarrow> True)"

text \<open>
  Reading one of the properties \<open>value\<close>, \<open>region\<close>, \<open>label\<close>, \<open>id\<close> of what an index gave:
  on nothing it raises a type error (the outer \<open>None\<close>); a string and a member of the
  prototype have no such property (the inner \<open>None\<close>).
\<close>

definition get_prop :: "jsval \<Rightarrow> string \<Rightarrow> string option option" where
  "get_prop v k = (case v of JUndefined \<Rightarrow> None | JString s \<Rightarrow> Some None | JBuiltin \<Rightarrow> Some None
               | JEntity e \<Rightarrow> Some (entity_prop e k))"

text \<open>\<open>x || d\<close> for a string \<open>x\<close> that may be missing.\<close>

definition or_default :: "string option \<Rightarrow> string \<Rightarrow> string" where
  "or_default x d = (case x of None \<Rightarrow> d | Some s \<Rightarrow> if s = [] then d else s)"

record lookup =
  byId :: jsobj
  byLabel :: jsobj

definition buildLookup_step :: "lookup \<Rightarrow> row \<Rightarrow> lookup" where
  "buildLookup_step l r =
     (let id = trim (or_default (r ''id'') []);
          label = trim (or_default (r ''label'') []);
          val = trim (or_default (r ''value'') ''0'');
          region = trim (or_default (r ''region'') ''0'');
          l1 = (if id \<noteq> [] then
                  l\<lparr>byId := js_set (byId l) id
                     \<lparr>e_value = val, e_region = region, e_label = Some label, e_id = None\<rparr>\<rparr>
                else l)
      in if label \<noteq> [] then
           l1\<lparr>byLabel := js_set (byLabel l1) label
              \<lparr>e_value = val, e_region = region, e_label = None, e_id = Some id\<rparr>\<rparr>
         else l1)"

definition buildLookup :: "row list \<Rightarrow> lookup" where
  "buildLookup rows = foldl buildLookup_step \<lparr>byId = empty_obj, byLabel = empty_obj\<rparr> rows"

section \<open>The merger\<close>

definition quoteRegex :: regex where
  "quoteRegex = \<lparr>items = [One (Lit DQ)], ignoreCase = False\<rparr>"

definition sanitizeAttrValue :: "string option \<Rightarrow> string" where
  "sanitizeAttrValue v = (case v of None \<Rightarrow> [] | Some s \<Rightarrow> replace_all quoteRegex ''&quot;'' [] s)"

text \<open>The patterns of \<^verbatim>\<open>editSvg\<close>, in the order of the source.\<close>

definition pathRegex :: regex where
  "pathRegex = \<lparr>items = lits ''<path'' @ [Boundary, Star (Except CHR ''>''), One (Lit CHR ''>'')],
     ignoreCase = True\<rparr>"

definition attrRegex :: "string \<Rightarrow> regex" where
  "attrRegex name = \<lparr>items = Plus Ws # lits name @ lits ''=\"'' @ [Star (Except DQ), One (Lit DQ)],
     ignoreCase = True\<rparr>"

definition labelRegex :: regex where
  "labelRegex = \<lparr>items = lits ''inkscape:label=\"'' @ [Open, Star (Except DQ), Close, One (Lit DQ)],
     ignoreCase = True\<rparr>"

definition idRegex :: regex where
  "idRegex = \<lparr>items = One Ws # lits ''id=\"'' @ [Open, Star (Except DQ), Close, One (Lit DQ)],
     ignoreCase = True\<rparr>"

definition idInsertRegex :: regex where
  "idInsertRegex = \<lparr>items = [Open, Plus Ws] @ lits ''id=\"'' @ [Close], ignoreCase = True\<rparr>"

definition closeRegex :: regex where
  "closeRegex = \<lparr>items = [One (Lit CHR ''>''), Star Ws, End], ignoreCase = False\<rparr>"

text \<open>The strip pass: three replacements, one after the other.\<close>

definition strip_attrs :: "string \<Rightarrow> string" where
  "strip_attrs tag =
     replace_all (attrRegex ''region'') [] []
       (replace_all (attrRegex ''value'') [] []
          (replace_all (attrRegex ''long-name'') [] [] tag))"

text \<open>\<open>m ? m[1] : null\<close> for the result of \<^verbatim>\<open>match\<close>.\<close>

definition group1 :: "(string \<times> string \<times> string \<times> string list) option \<Rightarrow> string option" where
  "group1 m = (case m of None \<Rightarrow> None
               | Some (pre, whole, post, groups) \<Rightarrow> (case groups of [] \<Rightarrow> None | g # _ \<Rightarrow> Some g))"

definition truthy_str :: "string option \<Rightarrow> bool" where
  "truthy_str x = (case x of None \<Rightarrow> False | Some s \<Rightarrow> s \<noteq> [])"

text \<open>\<open>obj[key]\<close> for a key that may be \<open>null\<close>, which is then the key \<^verbatim>\<open>null\<close>.\<close>

definition index :: "jsobj \<Rightarrow> string option \<Rightarrow> jsval" where
  "index obj key = js_get obj (case key of None \<Rightarrow> ''null'' | Some k \<Rightarrow> k)"

text \<open>
  The resolution of \<open>longName\<close>, \<open>value\<close> and \<open>region\<close> (lines 111 to 127), as a function of
  the two extracted attributes.  The result is \<open>None\<close> when a property is read from nothing.
\<close>

definition resolve :: "lookup \<Rightarrow> string option \<Rightarrow> string option \<Rightarrow> (string \<times> string \<times> string) option" where
  "resolve lookup elemId inkscapeLabel =
     (let longName = or_default inkscapeLabel ''None'' in
      if truthy_str elemId \<and> truthy (index (byId lookup) elemId) then
        do { v \<leftarrow> get_prop (index (byId lookup) elemId) ''value'';
             r \<leftarrow> get_prop (index (byId lookup) elemId) ''region'';
             l \<leftarrow> get_prop (index (byId lookup) elemId) ''label'';
             Some (or_default l longName, or_default v ''0'', or_default r ''0'') }
      else if truthy_str inkscapeLabel \<and> truthy (index (byLabel lookup) inkscapeLabel) then
        do { v \<leftarrow> get_prop (index (byLabel lookup) inkscapeLabel) ''value'';
             r \<leftarrow> get_prop (index (byLabel lookup) inkscapeLabel) ''region'';
             i \<leftarrow> get_prop (index (byLabel lookup) inkscapeLabel) ''id'';
             Some (longName, or_default v ''0'', or_default r ''0'') }
      else Some (longName, ''0'', ''0''))"

definition indent :: string where
  "indent = ''    ''"

definition newlineAttrs :: "string \<Rightarrow> string \<Rightarrow> string \<Rightarrow> string" where
  "newlineAttrs longName val region =
     [LF] @ indent @ ''long-name=\"'' @ sanitizeAttrValue (Some longName) @ [DQ] @
     [LF] @ indent @ ''value=\"'' @ sanitizeAttrValue (Some val) @ [DQ] @
     [LF] @ indent @ ''region=\"'' @ sanitizeAttrValue (Some region) @ [DQ]"

text \<open>The function applied to each matched tag.\<close>

definition editTag :: "lookup \<Rightarrow> string \<Rightarrow> string option" where
  "editTag lookup tag =
     (let clean = strip_attrs tag;
          labelMatch = rx_search labelRegex [] clean;
          inkscapeLabel = group1 labelMatch;
          idMatch = rx_search idRegex [] clean;
          elemId = group1 idMatch
      in do { (longName, val, region) \<leftarrow> resolve lookup elemId inkscapeLabel;
              Some (if idMatch \<noteq> None
                    then replace_first idInsertRegex (newlineAttrs longName val region @ ''$1'') clean
                    else replace_first closeRegex [] clean @ newlineAttrs longName val region @ ''>'') })"

definition editSvg :: "string \<Rightarrow> lookup \<Rightarrow> string option" where
  "editSvg svgStr lookup = replace_all_fn pathRegex (editTag lookup) [] svgStr"

text \<open>The composition of \<^verbatim>\<open>handleFiles\<close>: parse, build, merge.\<close>

definition run :: "string \<Rightarrow> string \<Rightarrow> string option" where
  "run svgData csvData = editSvg svgData (buildLookup (parseCSV csvData))"

section \<open>Notions used to state the properties\<close>

text \<open>
  The local constants \<open>inkscapeLabel\<close> and \<open>elemId\<close> of the function applied to a tag, and
  its resolution, as functions of the tag.
\<close>

definition extract_label :: "string \<Rightarrow> string option" where
  "extract_label tag = group1 (rx_search labelRegex [] (strip_attrs tag))"

definition extract_id :: "string \<Rightarrow> string option" where
  "extract_id tag = group1 (rx_search idRegex [] (strip_attrs tag))"

definition tag_resolution :: "lookup \<Rightarrow> string \<Rightarrow> (string \<times> string \<times> string) option" where
  "tag_resolution lookup tag = resolve lookup (extract_id tag) (extract_label tag)"

definition is_entity :: "jsval \<Rightarrow> bool" where
  "is_entity v = (case v of JEntity e \<Rightarrow> True | _ \<Rightarrow> False)"

text \<open>
  The writer's side of the table format, against which the field splitter is measured: a field
  between quotes with its quotes doubled, a field quoted only when it needs to be, and fields
  joined by commas.
\<close>

fun csv_escape :: "string \<Rightarrow> string" where
  "csv_escape [] = []"
| "csv_escape (c # f) = (if c = DQ then [DQ, DQ] else [c]) @ csv_escape f"

definition csv_quote :: "string \<Rightarrow> string" where
  "csv_quote f = DQ # csv_escape f @ [DQ]"

definition csv_field :: "string \<Rightarrow> string" where
  "csv_field f = (if CHR '','' \<in> set f \<or> DQ \<in> set f then csv_quote f else f)"

fun csv_join :: "string list \<Rightarrow> string" where
  "csv_join [] = []"
| "csv_join [f] = f"
| "csv_join (f # g # fs) = f @ CHR '','' # csv_join (g # fs)"

text \<open>
  The scan of the global replacement, kept as a list: a character that is passed over, or the
  text of a match.
\<close>

datatype segment = Text char | Tag string

function segments :: "regex \<Rightarrow> string \<Rightarrow> string \<Rightarrow> segment list" where
  "segments re pre s =
     (case rx_at re (if pre = [] then None else Some (last pre)) s of
        None \<Rightarrow> (case s of [] \<Rightarrow> [] | c # cs \<Rightarrow> Text c # segments re (pre @ [c]) cs)
      | Some (m, post, groups) \<Rightarrow>
          Tag m # (if m = [] then (case s of [] \<Rightarrow> [] | c # cs \<Rightarrow> Text c # segments re (pre @ [c]) cs)
                   else segments re (pre @ m) (drop (length m) s)))"
  by pat_completeness auto
termination
  by (relation "measure (\<lambda>(re, pre, s). length s)")
     (auto simp: rx_at_def split: option.splits)

declare segments.simps [simp del]

fun seg_text :: "segment \<Rightarrow> string" where
  "seg_text (Text c) = [c]"
| "seg_text (Tag t) = t"

fun seg_fold :: "segment \<Rightarrow> segment" where
  "seg_fold (Text c) = Text (canonicalize c)"
| "seg_fold (Tag t) = Tag (map canonicalize t)"

text \<open>Case folding of the results of a match, to compare texts that differ in letter case only.\<close>

definition fold_match :: "string \<times> string \<times> string list \<Rightarrow> string \<times> string \<times> string list" where
  "fold_match x = (case x of (m, post, groups) \<Rightarrow>
     (map canonicalize m, map canonicalize post, map (map canonicalize) groups))"

definition fold_found :: "string \<times> string \<times> string \<times> string list \<Rightarrow> string \<times> string \<times> string \<times> string list" where
  "fold_found x = (case x of (pre, m, post, groups) \<Rightarrow>
     (map canonicalize pre, map canonicalize m, map canonicalize post, map (map canonicalize) groups))"

text \<open>
  The form of a text matched by the pattern of target tags: the five characters of \<^verbatim>\<open><path\<close>
  in either case, then a character that is not a word character, and exactly one closing
  sign, which is the last character.
\<close>

definition is_path_tag :: "string \<Rightarrow> bool" where
  "is_path_tag t = (6 \<le> length t \<and> map canonicalize (take 5 t) = map canonicalize ''<path''
     \<and> \<not> is_word (t ! 5) \<and> last t = CHR ''>'' \<and> CHR ''>'' \<notin> set (butlast t))"

text \<open>
  The number of occurrences of an attribute in a text, as the strip pass finds them: the
  matches of the strip pattern of that name in one scan.
\<close>

definition count_attr :: "string \<Rightarrow> string \<Rightarrow> nat" where
  "count_attr name s =
     length (filter (\<lambda>seg. case seg of Tag t \<Rightarrow> True | Text c \<Rightarrow> False) (segments (attrRegex name) [] s))"

section \<open>Characters\<close>

lemma of_char_bit5: "(of_char (Char b0 b1 b2 b3 b4 True b6 b7) :: nat) = of_char (Char b0 b1 b2 b3 b4 False b6 b7) + 32"
  by simp

lemma of_char_low5: "(of_char (Char b0 b1 b2 b3 b4 False False False) :: nat) < 32"
  by (cases b0; cases b1; cases b2; cases b3; cases b4) simp_all

lemma of_char_split: "(of_char (Char b0 b1 b2 b3 b4 b5 b6 b7) :: nat) =
   of_char (Char b0 b1 b2 b3 b4 False False False) + (if b5 then 32 else 0) + (if b6 then 64 else 0) + (if b7 then 128 else 0)"
  by simp

lemma of_char_canonicalize:
  "(of_char (canonicalize c) :: nat) =
     (let n = of_char c in if (97 \<le> n \<and> n \<le> 122) \<or> (224 \<le> n \<and> n \<le> 254 \<and> n \<noteq> 247) then n - 32 else n)"
proof (cases c)
  case (Char b0 b1 b2 b3 b4 b5 b6 b7)
  define w :: nat where "w = of_char (Char b0 b1 b2 b3 b4 False False False)"
  have w: "w < 32" unfolding w_def by (rule of_char_low5)
  have n: "(of_char c :: nat) = w + (if b5 then 32 else 0) + (if b6 then 64 else 0) + (if b7 then 128 else 0)"
    unfolding Char w_def by (rule of_char_split)
  have m: "(of_char (Char b0 b1 b2 b3 b4 False b6 b7) :: nat) = w + (if b6 then 64 else 0) + (if b7 then 128 else 0)"
    unfolding w_def by simp
  show ?thesis
    unfolding canonicalize_def Let_def n
    using w m by (cases b5; cases b6; cases b7) (simp_all add: Char)
qed

lemma char_eq_of_char: "(c = c') = ((of_char c :: nat) = of_char c')"
  by (metis char_of_char)

lemma is_space_of_char:
  "is_space c = ((of_char c :: nat) \<in> {9, 10, 11, 12, 13, 32, 160})"
  by (simp add: is_space_def char_eq_of_char [of c])

lemma canon_cases:
  "canonicalize c = canonicalize c' \<Longrightarrow>
   (of_char c :: nat) = of_char c' \<or> (of_char c :: nat) = of_char c' + 32 \<and> 97 \<le> (of_char c :: nat)
     \<and> ((of_char c :: nat) \<le> 122 \<or> 224 \<le> (of_char c :: nat))
   \<or> (of_char c' :: nat) = of_char c + 32 \<and> 97 \<le> (of_char c' :: nat)
     \<and> ((of_char c' :: nat) \<le> 122 \<or> 224 \<le> (of_char c' :: nat))"
proof -
  assume "canonicalize c = canonicalize c'"
  then have e: "(of_char (canonicalize c) :: nat) = of_char (canonicalize c')" by simp
  define n :: nat where "n = of_char c"
  define m :: nat where "m = of_char c'"
  have "(if (97 \<le> n \<and> n \<le> 122) \<or> (224 \<le> n \<and> n \<le> 254 \<and> n \<noteq> 247) then n - 32 else n)
      = (if (97 \<le> m \<and> m \<le> 122) \<or> (224 \<le> m \<and> m \<le> 254 \<and> m \<noteq> 247) then m - 32 else m)"
    using e unfolding of_char_canonicalize Let_def n_def m_def .
  then have "n = m \<or> n = m + 32 \<and> 97 \<le> n \<and> (n \<le> 122 \<or> 224 \<le> n)
     \<or> m = n + 32 \<and> 97 \<le> m \<and> (m \<le> 122 \<or> 224 \<le> m)"
    by (simp split: if_splits) linarith+
  then show ?thesis unfolding n_def m_def .
qed

lemma canonicalize_space: "canonicalize c = canonicalize c' \<Longrightarrow> is_space c = is_space c'"
  using canon_cases [of c c'] unfolding is_space_of_char by auto

lemma canonicalize_word: "canonicalize c = canonicalize c' \<Longrightarrow> is_word c = is_word c'"
  using canon_cases [of c c'] unfolding is_word_def Let_def by auto

section \<open>Matching under the flag \<^verbatim>\<open>i\<close>\<close>

lemma cset_mem_fold: "canonicalize c = canonicalize c' \<Longrightarrow> cset_mem True a c = cset_mem True a c'"
  by (cases a) (auto dest: canonicalize_space)

lemma word_at_fold:
  "map_option canonicalize p = map_option canonicalize p' \<Longrightarrow> word_at p = word_at p'"
  by (cases p; cases p') (auto simp: word_at_def dest: canonicalize_word)

lemma rx_match_fold:
  "map canonicalize s = map canonicalize s' \<Longrightarrow>
   map_option canonicalize prev = map_option canonicalize prev' \<Longrightarrow> ic \<Longrightarrow>
   rx_match ic r prev s i os caps = rx_match ic r prev' s' i os caps"
proof (induction ic r prev s i os caps arbitrary: s' prev' rule: rx_match.induct)
  case (1 ic prev s i os caps)
  then show ?case by simp
next
  case (2 ic r prev s i os caps)
  then show ?case by simp
next
  case (3 ic r prev s i os caps)
  then show ?case by (cases os) simp_all
next
  case (4 ic r prev s i os caps)
  have "word_at (case s of [] \<Rightarrow> None | c # x \<Rightarrow> Some c) = word_at (case s' of [] \<Rightarrow> None | c # x \<Rightarrow> Some c)"
    using "4.prems"(1) by (intro word_at_fold) (cases s; cases s'; simp)
  moreover have "word_at prev = word_at prev'" using "4.prems"(2) by (rule word_at_fold)
  ultimately show ?case using 4 by simp
next
  case (5 ic r prev s i os caps)
  then show ?case by (cases s; cases s') simp_all
next
  case (6 ic a r prev i os caps)
  then show ?case by simp
next
  case (7 ic a r prev c cs i os caps)
  then obtain c' cs' where s': "s' = c' # cs'" "canonicalize c = canonicalize c'"
      "map canonicalize cs = map canonicalize cs'" by (cases s') auto
  then show ?case using 7 cset_mem_fold [OF s'(2), of a] by simp
next
  case (8 ic a r prev i os caps)
  then show ?case by simp
next
  case (9 ic a r prev c cs i os caps)
  then obtain c' cs' where s': "s' = c' # cs'" "canonicalize c = canonicalize c'"
      "map canonicalize cs = map canonicalize cs'" by (cases s') auto
  then show ?case using 9 cset_mem_fold [OF s'(2), of a] by simp
next
  case (10 ic a r prev i os caps)
  then show ?case by simp
next
  case (11 ic a r prev c cs i os caps)
  then obtain c' cs' where s': "s' = c' # cs'" "canonicalize c = canonicalize c'"
      "map canonicalize cs = map canonicalize cs'" by (cases s') auto
  have ic: "ic = True" using "11.prems" by simp
  have m: "cset_mem ic a c = cset_mem ic a c'" unfolding ic using s'(2) by (rule cset_mem_fold)
  show ?case
  proof (cases "cset_mem ic a c")
    case True
    have "rx_match ic (Star a # r) (Some c) cs (Suc i) os caps
        = rx_match ic (Star a # r) (Some c') cs' (Suc i) os caps"
      using "11.IH"(1) [OF True s'(3), of "Some c'"] s'(2) ic by simp
    moreover have "rx_match ic r prev (c # cs) i os caps = rx_match ic r prev' (c' # cs') i os caps"
      if "rx_match ic (Star a # r) (Some c) cs (Suc i) os caps = None"
      using "11.IH"(2) [OF True that, of "c' # cs'" prev'] s' "11.prems" by simp
    ultimately show ?thesis using True m s'(1) by (simp split: option.splits)
  next
    case False
    then show ?thesis using "11.IH"(3) [OF False, of "c' # cs'" prev'] s' "11.prems" m by simp
  qed
qed

section \<open>The scan of a global replacement\<close>

lemma rx_at_parts:
  "rx_at re prev s = Some (m, post, groups) \<Longrightarrow> post = drop (length m) s \<and> m @ drop (length m) s = s"
  by (auto simp: rx_at_def min_def split: option.splits)

lemma segments_concat: "concat (map seg_text (segments re pre s)) = s"
proof (induction re pre s rule: segments.induct)
  case (1 re pre s)
  show ?case
  proof (cases "rx_at re (if pre = [] then None else Some (last pre)) s")
    case None
    then show ?thesis using "1.IH"(1) by (subst segments.simps) (cases s; simp)
  next
    case (Some x)
    obtain m post groups where x: "x = (m, post, groups)" by (cases x) auto
    show ?thesis
    proof (cases "m = []")
      case True
      then show ?thesis using Some x "1.IH"(2) [OF Some [unfolded x] refl refl True]
        by (subst segments.simps) (cases s; simp)
    next
      case False
      then show ?thesis using Some x "1.IH"(3) [OF Some [unfolded x] refl refl False]
          rx_at_parts [OF Some [unfolded x]]
        by (subst segments.simps) simp
    qed
  qed
qed

lemma replace_all_fn_segments:
  "replace_all_fn re (\<lambda>t. Some (g t)) pre s =
     Some (concat (map (\<lambda>seg. case seg of Text c \<Rightarrow> [c] | Tag t \<Rightarrow> g t) (segments re pre s)))"
proof (induction re "\<lambda>t. Some (g t)" pre s rule: replace_all_fn.induct)
  case (1 re pre s)
  show ?case
  proof (cases "rx_at re (if pre = [] then None else Some (last pre)) s")
    case None
    then show ?thesis using "1.hyps"(1)
      by (subst replace_all_fn.simps, subst segments.simps) (cases s; simp)
  next
    case (Some x)
    obtain m post groups where x: "x = (m, post, groups)" by (cases x) auto
    show ?thesis
    proof (cases "m = []")
      case True
      then show ?thesis using Some x "1.hyps"(2) [OF Some [unfolded x] refl refl refl True]
        by (subst replace_all_fn.simps, subst segments.simps) (cases s; simp)
    next
      case False
      then show ?thesis using Some x "1.hyps"(3) [OF Some [unfolded x] refl refl refl False]
        by (subst replace_all_fn.simps, subst segments.simps) simp
    qed
  qed
qed

section \<open>Totality\<close>

lemma editTag_resolution:
  "editTag lookup tag =
     (case tag_resolution lookup tag of
        None \<Rightarrow> None
      | Some (longName, val, region) \<Rightarrow>
          Some (if rx_search idRegex [] (strip_attrs tag) \<noteq> None
                then replace_first idInsertRegex (newlineAttrs longName val region @ ''$1'') (strip_attrs tag)
                else replace_first closeRegex [] (strip_attrs tag) @ newlineAttrs longName val region @ ''>''))"
  by (simp add: editTag_def tag_resolution_def extract_id_def extract_label_def Let_def split: option.splits)

lemma resolve_total: "\<exists>x. resolve lookup elemId inkscapeLabel = Some x"
  by (cases "index (byId lookup) elemId"; cases "index (byLabel lookup) inkscapeLabel")
     (simp_all add: resolve_def truthy_def get_prop_def Let_def)

lemma editTag_total: "\<exists>out. editTag lookup tag = Some out"
  using resolve_total [of lookup "extract_id tag" "extract_label tag"]
  by (auto simp: editTag_resolution tag_resolution_def)

lemma editSvg_total: "\<exists>out. editSvg svgStr lookup = Some out"
proof -
  have "editTag lookup = (\<lambda>t. Some (the (editTag lookup t)))"
    using editTag_total [of lookup] by (intro ext) (metis option.sel)
  then show ?thesis
    unfolding editSvg_def using replace_all_fn_segments [of pathRegex "\<lambda>t. the (editTag lookup t)" "[]" svgStr]
    by simp
qed

lemma pad_values_eq: "pad_values n vs = vs @ replicate (n - length vs) []"
proof (induction n vs rule: pad_values.induct)
  case (1 n vs)
  show ?case
  proof (cases "length vs < n")
    case True
    then have "n - length vs = Suc (n - Suc (length vs))" by simp
    then show ?thesis using True "1.IH" [OF True]
      by (subst pad_values.simps) (simp add: replicate_app_Cons_same)
  next
    case False
    then show ?thesis by (subst pad_values.simps) simp
  qed
qed

lemma loop_unterminated:
  "DQ \<notin> set f \<Longrightarrow> parseCSVLine_loop f True cur res = res @ [cur @ f]"
  by (induction f arbitrary: cur) auto

lemma buildLookup_step_empty: "buildLookup_step l Map.empty = l"
  by (simp add: buildLookup_step_def or_default_def trim_def)

text \<open>
  C8.  Parse, build and merge are total.  The parser and the builder are functions without a
  failing branch whose loops terminate; the merger, whose only failing branch is the read of a
  property from nothing, gives a result for every text and every index.  The anomalies end in
  the defaults: a tag without identifier and style label resolves to \<^verbatim>\<open>None\<close>, \<^verbatim>\<open>0\<close>,
  \<^verbatim>\<open>0\<close>; a short row is padded with empty fields; a quote that is never closed makes the
  rest of the line one field; a record without the four columns leaves the index unchanged.
\<close>

theorem C8_total:
  "(\<exists>out. run svgData csvData = Some out)
   \<and> (\<exists>out. editSvg svgData lookup = Some out)
   \<and> resolve lookup None None = Some (''None'', ''0'', ''0'')
   \<and> pad_values n vs = vs @ replicate (n - length vs) []
   \<and> (DQ \<notin> set f \<longrightarrow> parseCSVLine_loop f True cur res = res @ [cur @ f])
   \<and> buildLookup_step lookup Map.empty = lookup"
  using editSvg_total pad_values_eq loop_unterminated buildLookup_step_empty
  by (simp add: run_def resolve_def truthy_str_def or_default_def)

theorem C8_witness:
  "(\<exists>out. run ''<path id=>'' ''id,label\<newline>\"p1,x'' = Some out)
   \<and> DQ \<notin> set ''abc,d''
   \<and> parseCSVLine_loop ''abc,d'' True [] [''1''] = [''1'', ''abc,d'']"
  using C8_total [where svgData = "''<path id=>''" and csvData = "''id,label\<newline>\"p1,x''"
      and f = "''abc,d''" and cur = "[]" and res = "[''1'']"]
  by simp

section \<open>Letter case\<close>

lemma prev_fold:
  "map canonicalize pre = map canonicalize pre' \<Longrightarrow>
   map_option canonicalize (if pre = [] then None else Some (last pre))
     = map_option canonicalize (if pre' = [] then None else Some (last pre'))"
proof -
  assume a: "map canonicalize pre = map canonicalize pre'"
  then have e: "(pre = []) = (pre' = [])" by (metis map_is_Nil_conv)
  show ?thesis
  proof (cases "pre = []")
    case True
    then show ?thesis using e by simp
  next
    case False
    then have "canonicalize (last pre) = last (map canonicalize pre)" by (simp add: last_map)
    also have "\<dots> = canonicalize (last pre')" using a False e by (simp add: last_map)
    finally show ?thesis using False e by simp
  qed
qed

lemma rx_at_fold:
  assumes "ignoreCase re" "map canonicalize s = map canonicalize s'"
    "map_option canonicalize prev = map_option canonicalize prev'"
  shows "map_option fold_match (rx_at re prev s) = map_option fold_match (rx_at re prev' s')"
proof -
  have "rx_match (ignoreCase re) (items re) prev s 0 [] [] = rx_match (ignoreCase re) (items re) prev' s' 0 [] []"
    using assms by (intro rx_match_fold) simp_all
  moreover have "map canonicalize (take n s) = map canonicalize (take n s')" for n
    using assms(2) by (simp add: take_map [symmetric])
  moreover have "map canonicalize (drop n s) = map canonicalize (drop n s')" for n
    using assms(2) by (simp add: drop_map [symmetric])
  ultimately show ?thesis
    by (auto simp: rx_at_def fold_match_def take_map [symmetric] split: option.splits)
qed

lemma fold_match_eq:
  "map_option fold_match x = map_option fold_match y \<Longrightarrow>
   (x = None \<and> y = None) \<or>
   (\<exists>m post gs m' post' gs'. x = Some (m, post, gs) \<and> y = Some (m', post', gs')
      \<and> map canonicalize m = map canonicalize m' \<and> map canonicalize post = map canonicalize post'
      \<and> map (map canonicalize) gs = map (map canonicalize) gs')"
  by (cases x; cases y) (auto simp: fold_match_def)

lemma segments_fold:
  "ignoreCase re \<Longrightarrow> map canonicalize s = map canonicalize s' \<Longrightarrow>
   map canonicalize pre = map canonicalize pre' \<Longrightarrow>
   map seg_fold (segments re pre s) = map seg_fold (segments re pre' s')"
proof (induction re pre s arbitrary: pre' s' rule: segments.induct)
  case (1 re pre s)
  let ?p = "if pre = [] then None else Some (last pre)"
  let ?p' = "if pre' = [] then None else Some (last pre')"
  have len: "length s = length s'" using "1.prems"(2) by (metis length_map)
  have r: "map_option fold_match (rx_at re ?p s) = map_option fold_match (rx_at re ?p' s')"
    by (rule rx_at_fold [OF "1.prems"(1,2) prev_fold [OF "1.prems"(3)]])
  consider (none) "rx_at re ?p s = None" "rx_at re ?p' s' = None"
    | (some) m post gs m' post' gs' where "rx_at re ?p s = Some (m, post, gs)"
        "rx_at re ?p' s' = Some (m', post', gs')" "map canonicalize m = map canonicalize m'"
  proof (cases "rx_at re ?p s")
    case None
    then have "rx_at re ?p' s' = None" using r by simp
    with None show ?thesis by (rule none)
  next
    case (Some x)
    then obtain x' where x': "rx_at re ?p' s' = Some x'" "fold_match x = fold_match x'"
      using r by (cases "rx_at re ?p' s'") auto
    obtain m post gs where x: "x = (m, post, gs)" by (cases x) auto
    obtain m' post' gs' where y: "x' = (m', post', gs')" by (cases x') auto
    have "map canonicalize m = map canonicalize m'" using x'(2) x y by (simp add: fold_match_def)
    then show ?thesis using some Some x' x y by simp
  qed
  then show ?case
  proof cases
    case none
    show ?thesis
    proof (cases s)
      case Nil
      then show ?thesis using none len
        by (subst segments.simps, subst (2) segments.simps) simp
    next
      case (Cons c cs)
      then obtain c' cs' where s': "s' = c' # cs'" "canonicalize c = canonicalize c'"
        "map canonicalize cs = map canonicalize cs'" using "1.prems"(2) by (cases s') auto
      have "map seg_fold (segments re (pre @ [c]) cs) = map seg_fold (segments re (pre' @ [c']) cs')"
        using "1.IH"(1) [OF none(1) Cons "1.prems"(1) s'(3)] "1.prems"(3) s'(2) by simp
      then show ?thesis using none Cons s'
        by (subst segments.simps, subst (2) segments.simps) simp
    qed
  next
    case some
    have ml: "length m = length m'" using some(3) by (metis length_map)
    show ?thesis
    proof (cases "m = []")
      case True
      then have m': "m' = []" using ml by simp
      show ?thesis
      proof (cases s)
        case Nil
        then show ?thesis using some True m' len
          by (subst segments.simps, subst (2) segments.simps) simp
      next
        case (Cons c cs)
        then obtain c' cs' where s': "s' = c' # cs'" "canonicalize c = canonicalize c'"
          "map canonicalize cs = map canonicalize cs'" using "1.prems"(2) by (cases s') auto
        have "map seg_fold (segments re (pre @ [c]) cs) = map seg_fold (segments re (pre' @ [c']) cs')"
          using "1.IH"(2) [OF some(1) refl refl True Cons "1.prems"(1) s'(3)] "1.prems"(3) s'(2) by simp
        then show ?thesis using some True m' Cons s'
          by (subst segments.simps, subst (2) segments.simps) simp
      qed
    next
      case False
      then have m': "m' \<noteq> []" using ml by auto
      have d: "map canonicalize (drop (length m) s) = map canonicalize (drop (length m') s')"
        using "1.prems"(2) ml by (simp add: drop_map [symmetric])
      have "map seg_fold (segments re (pre @ m) (drop (length m) s))
          = map seg_fold (segments re (pre' @ m') (drop (length m') s'))"
        using "1.IH"(3) [OF some(1) refl refl False "1.prems"(1) d] "1.prems"(3) some(3) by simp
      then show ?thesis using some False m'
        by (subst segments.simps, subst (2) segments.simps) simp
    qed
  qed
qed

lemma replace_all_segments:
  "replace_all re [] pre s =
     concat (map (\<lambda>seg. case seg of Text c \<Rightarrow> [c] | Tag t \<Rightarrow> []) (segments re pre s))"
proof (induction re "[] :: string" pre s rule: replace_all.induct)
  case (1 re pre s)
  show ?case
  proof (cases "rx_at re (if pre = [] then None else Some (last pre)) s")
    case None
    then show ?thesis using "1.hyps"(1)
      by (subst replace_all.simps, subst segments.simps) (cases s; simp)
  next
    case (Some x)
    obtain m post groups where x: "x = (m, post, groups)" by (cases x) auto
    show ?thesis
    proof (cases "m = []")
      case True
      then show ?thesis using Some x "1.hyps"(2) [OF Some [unfolded x] refl refl True]
        by (subst replace_all.simps, subst segments.simps) (cases s; simp)
    next
      case False
      then show ?thesis using Some x "1.hyps"(3) [OF Some [unfolded x] refl refl False]
        by (subst replace_all.simps, subst segments.simps) simp
    qed
  qed
qed

lemma removed_fold:
  "map canonicalize (case seg of Text c \<Rightarrow> [c] | Tag t \<Rightarrow> [])
     = (case seg_fold seg of Text c \<Rightarrow> [c] | Tag t \<Rightarrow> [])"
  by (cases seg) simp_all

lemma replace_all_fold:
  assumes "ignoreCase re" "map canonicalize s = map canonicalize s'"
  shows "map canonicalize (replace_all re [] [] s) = map canonicalize (replace_all re [] [] s')"
proof -
  have "\<And>u. map canonicalize (replace_all re [] [] u)
      = concat (map (\<lambda>seg. case seg of Text c \<Rightarrow> [c] | Tag t \<Rightarrow> []) (map seg_fold (segments re [] u)))"
    by (simp add: replace_all_segments map_concat comp_def removed_fold)
  note A = this
  have sf: "map seg_fold (segments re [] s) = map seg_fold (segments re [] s')"
    using assms by (intro segments_fold) simp_all
  show ?thesis by (simp only: A sf)
qed

lemma strip_attrs_fold:
  "map canonicalize t = map canonicalize t' \<Longrightarrow>
   map canonicalize (strip_attrs t) = map canonicalize (strip_attrs t')"
  unfolding strip_attrs_def
  by (intro replace_all_fold) (simp_all add: attrRegex_def)

lemma rx_search_fold:
  "ignoreCase re \<Longrightarrow> map canonicalize s = map canonicalize s' \<Longrightarrow>
   map canonicalize pre = map canonicalize pre' \<Longrightarrow>
   map_option fold_found (rx_search re pre s) = map_option fold_found (rx_search re pre' s')"
proof (induction re pre s arbitrary: pre' s' rule: rx_search.induct)
  case (1 re pre s)
  let ?p = "if pre = [] then None else Some (last pre)"
  let ?p' = "if pre' = [] then None else Some (last pre')"
  have r: "map_option fold_match (rx_at re ?p s) = map_option fold_match (rx_at re ?p' s')"
    by (rule rx_at_fold [OF "1.prems"(1,2) prev_fold [OF "1.prems"(3)]])
  show ?case
  proof (cases "rx_at re ?p s")
    case None
    then have n': "rx_at re ?p' s' = None" using r by simp
    show ?thesis
    proof (cases s)
      case Nil
      then have "s' = []" using "1.prems"(2) by simp
      then show ?thesis using None n' Nil
        by (simp add: rx_search.simps [of re pre "[]"] rx_search.simps [of re pre' "[]"])
    next
      case (Cons c cs)
      then obtain c' cs' where s': "s' = c' # cs'" "canonicalize c = canonicalize c'"
        "map canonicalize cs = map canonicalize cs'" using "1.prems"(2) by (cases s') auto
      have "map_option fold_found (rx_search re (pre @ [c]) cs)
          = map_option fold_found (rx_search re (pre' @ [c']) cs')"
        using "1.IH" [OF None Cons "1.prems"(1) s'(3)] "1.prems"(3) s'(2) by simp
      then show ?thesis using None n' Cons s'
        by (simp add: rx_search.simps [of re pre "c # cs"] rx_search.simps [of re pre' "c' # cs'"])
    qed
  next
    case (Some x)
    then obtain x' where x': "rx_at re ?p' s' = Some x'" "fold_match x = fold_match x'"
      using r by (cases "rx_at re ?p' s'") auto
    obtain m post gs where x: "x = (m, post, gs)" by (cases x) auto
    obtain m' post' gs' where y: "x' = (m', post', gs')" by (cases x') auto
    show ?thesis using Some x' x y "1.prems"(3)
      by (simp add: rx_search.simps [of re pre s] rx_search.simps [of re pre' s']
            fold_match_def fold_found_def)
  qed
qed

lemma group1_fold:
  "map_option fold_found x = map_option fold_found y \<Longrightarrow>
   map_option (map canonicalize) (group1 x) = map_option (map canonicalize) (group1 y) \<and> (x = None) = (y = None)"
  by (cases x; cases y) (auto simp: group1_def fold_found_def split: list.splits)

text \<open>
  C9.  Matching ignores letter case.  For two tags that differ in letter case only, the scan
  for target tags finds the same spans, the strip pass removes the same spans, and the
  identifier and the style label are found at the same places; what is extracted is the text
  as it is written.
\<close>

theorem C9_case_insensitive:
  "map canonicalize t = map canonicalize t' \<Longrightarrow>
     map seg_fold (segments pathRegex [] t) = map seg_fold (segments pathRegex [] t')
   \<and> map canonicalize (strip_attrs t) = map canonicalize (strip_attrs t')
   \<and> map_option (map canonicalize) (extract_id t) = map_option (map canonicalize) (extract_id t')
   \<and> map_option (map canonicalize) (extract_label t) = map_option (map canonicalize) (extract_label t')
   \<and> (rx_search idRegex [] (strip_attrs t) = None) = (rx_search idRegex [] (strip_attrs t') = None)"
proof -
  assume a: "map canonicalize t = map canonicalize t'"
  have s: "map canonicalize (strip_attrs t) = map canonicalize (strip_attrs t')"
    using a by (rule strip_attrs_fold)
  have i: "map_option fold_found (rx_search idRegex [] (strip_attrs t))
         = map_option fold_found (rx_search idRegex [] (strip_attrs t'))"
    using s by (intro rx_search_fold) (simp_all add: idRegex_def)
  have l: "map_option fold_found (rx_search labelRegex [] (strip_attrs t))
         = map_option fold_found (rx_search labelRegex [] (strip_attrs t'))"
    using s by (intro rx_search_fold) (simp_all add: labelRegex_def)
  have p: "map seg_fold (segments pathRegex [] t) = map seg_fold (segments pathRegex [] t')"
    using a by (intro segments_fold) (simp_all add: pathRegex_def)
  show ?thesis using s p group1_fold [OF i] group1_fold [OF l]
    by (simp add: extract_id_def extract_label_def)
qed


theorem C9_witness:
  "map canonicalize ''<PATH ID=\"p1\" Value=\"9\" INKSCAPE:LABEL=\"Norte\"/>''
     = map canonicalize ''<path id=\"p1\" value=\"9\" inkscape:label=\"Norte\"/>''
   \<and> map seg_fold (segments pathRegex [] ''<PATH ID=\"p1\" Value=\"9\" INKSCAPE:LABEL=\"Norte\"/>'')
     = map seg_fold (segments pathRegex [] ''<path id=\"p1\" value=\"9\" inkscape:label=\"Norte\"/>'')
   \<and> segments pathRegex [] ''<PATH ID=\"p1\" Value=\"9\" INKSCAPE:LABEL=\"Norte\"/>''
     = [Tag ''<PATH ID=\"p1\" Value=\"9\" INKSCAPE:LABEL=\"Norte\"/>'']
   \<and> strip_attrs ''<PATH ID=\"p1\" Value=\"9\" INKSCAPE:LABEL=\"Norte\"/>''
     = ''<PATH ID=\"p1\" INKSCAPE:LABEL=\"Norte\"/>''
   \<and> extract_id ''<PATH ID=\"p1\" Value=\"9\" INKSCAPE:LABEL=\"Norte\"/>'' = Some ''p1''
   \<and> extract_label ''<PATH ID=\"p1\" Value=\"9\" INKSCAPE:LABEL=\"Norte\"/>'' = Some ''Norte''
   \<and> run ''<PATH ID=\"p1\" Value=\"9\" INKSCAPE:LABEL=\"Norte\"/>'' ''id,value\<newline>p1,7''
     = Some ''<PATH\<newline>    long-name=\"Norte\"\<newline>    value=\"7\"\<newline>    region=\"0\" ID=\"p1\" INKSCAPE:LABEL=\"Norte\"/>''"
proof -
  let ?t = "''<PATH ID=\"p1\" Value=\"9\" INKSCAPE:LABEL=\"Norte\"/>''"
  let ?u = "''<path id=\"p1\" value=\"9\" inkscape:label=\"Norte\"/>''"
  have h: "map canonicalize ?t = map canonicalize ?u" by code_simp
  have e: "segments pathRegex [] ?t = [Tag ?t]
     \<and> strip_attrs ?t = ''<PATH ID=\"p1\" INKSCAPE:LABEL=\"Norte\"/>''
     \<and> extract_id ?t = Some ''p1'' \<and> extract_label ?t = Some ''Norte''
     \<and> run ?t ''id,value\<newline>p1,7''
       = Some ''<PATH\<newline>    long-name=\"Norte\"\<newline>    value=\"7\"\<newline>    region=\"0\" ID=\"p1\" INKSCAPE:LABEL=\"Norte\"/>''"
    by code_simp
  show ?thesis using C9_case_insensitive [OF h] h e by simp
qed

section \<open>The form of the matches\<close>

lemma canonicalize_plain:
  "\<not> (65 \<le> (of_char a :: nat) \<and> (of_char a :: nat) \<le> 90) \<Longrightarrow> (of_char a :: nat) < 97 \<Longrightarrow>
   (canonicalize c = canonicalize a) = (c = a)"
proof
  assume a: "\<not> (65 \<le> (of_char a :: nat) \<and> (of_char a :: nat) \<le> 90)" "(of_char a :: nat) < 97"
    and e: "canonicalize c = canonicalize a"
  from canon_cases [OF e] a show "c = a" unfolding char_eq_of_char [of c a] by auto
qed simp

lemma canonicalize_gt [simp]: "(canonicalize c = canonicalize (CHR ''>'')) = (c = CHR ''>'')"
  by (simp add: canonicalize_plain)

lemma canonicalize_dq [simp]: "(canonicalize c = canonicalize DQ) = (c = DQ)"
  by (simp add: canonicalize_plain)

lemma canonicalize_gt' [simp]: "(canonicalize (CHR ''>'') = canonicalize c) = (c = CHR ''>'')"
  by (metis canonicalize_gt)

lemma canonicalize_dq' [simp]: "(canonicalize DQ = canonicalize c) = (c = DQ)"
  by (metis canonicalize_dq)

lemma lit_gt [simp]: "cset_mem ic (Lit (CHR ''>'')) c = (c = CHR ''>'')"
  by (simp add: canonicalize_plain)

lemma lit_dq [simp]: "cset_mem ic (Lit DQ) c = (c = DQ)"
  by (simp add: canonicalize_plain)

lemma except_gt [simp]: "cset_mem ic (Except (CHR ''>'')) c = (c \<noteq> CHR ''>'')"
  by (simp add: canonicalize_plain)

lemma except_dq [simp]: "cset_mem ic (Except DQ) c = (c \<noteq> DQ)"
  by (simp add: canonicalize_plain)

lemma nth_shift: "Suc i < n \<Longrightarrow> (c # cs) ! (n - i - 1) = cs ! (n - Suc i - 1)"
  by (simp add: nth_Cons')

text \<open>A match of a pattern that ends in a single set ends with a character of that set.\<close>

lemma rx_match_last:
  "rx_match ic r prev s i os caps = Some (n, c) \<Longrightarrow> r = r0 @ [One a] \<Longrightarrow>
   i < n \<and> n \<le> i + length s \<and> cset_mem ic a (s ! (n - i - 1))"
proof (induction ic r prev s i os caps arbitrary: r0 rule: rx_match.induct)
  case (1 ic prev s i os caps)
  then show ?case by simp
next
  case (2 ic r prev s i os caps)
  obtain r1 where "r0 = Open # r1" "r = r1 @ [One a]" using "2.prems"(2) by (cases r0) auto
  then show ?case using 2 by simp
next
  case (3 ic r prev s i os caps)
  obtain r1 where r1: "r0 = Close # r1" "r = r1 @ [One a]" using "3.prems"(2) by (cases r0) auto
  show ?case
  proof (cases os)
    case Nil
    then show ?thesis using "3.IH"(1) [OF Nil _ r1(2)] "3.prems" r1 by simp
  next
    case (Cons b os')
    then show ?thesis using "3.IH"(2) [OF Cons _ r1(2)] "3.prems" r1 by simp
  qed
next
  case (4 ic r prev s i os caps)
  obtain r1 where r1: "r0 = Boundary # r1" "r = r1 @ [One a]" using "4.prems"(2) by (cases r0) auto
  then show ?case using "4.IH" [OF _ _ r1(2)] "4.prems" by (auto split: if_splits)
next
  case (5 ic r prev s i os caps)
  obtain r1 where r1: "r0 = End # r1" "r = r1 @ [One a]" using "5.prems"(2) by (cases r0) auto
  then show ?case using "5.IH" [OF _ _ r1(2)] "5.prems" by (auto split: if_splits)
next
  case (6 ic b r prev i os caps)
  show ?case using "6.prems"(1) by simp
next
  case (7 ic b r prev c' cs i os caps)
  have m: "cset_mem ic b c'" using "7.prems"(1) by (simp split: if_splits)
  have step: "rx_match ic r (Some c') cs (Suc i) os caps = Some (n, c)"
    using "7.prems"(1) m by simp
  show ?case
  proof (cases r0)
    case Nil
    then have "b = a" "r = []" using "7.prems"(2) by simp_all
    then show ?thesis using step m by auto
  next
    case (Cons x r1)
    then have r1: "r = r1 @ [One a]" using "7.prems"(2) by simp
    have "Suc i < n \<and> n \<le> Suc i + length cs \<and> cset_mem ic a (cs ! (n - Suc i - 1))"
      by (rule "7.IH" [OF m step r1])
    then show ?thesis using nth_shift [of i n c' cs] by auto
  qed
next
  case (8 ic b r prev i os caps)
  show ?case using "8.prems"(1) by simp
next
  case (9 ic b r prev c' cs i os caps)
  have m: "cset_mem ic b c'" using "9.prems"(1) by (simp split: if_splits)
  have step: "rx_match ic (Star b # r) (Some c') cs (Suc i) os caps = Some (n, c)"
    using "9.prems"(1) m by simp
  obtain r1 where r1: "r0 = Plus b # r1" "r = r1 @ [One a]" using "9.prems"(2) by (cases r0) auto
  have "Suc i < n \<and> n \<le> Suc i + length cs \<and> cset_mem ic a (cs ! (n - Suc i - 1))"
    using "9.IH" [OF m step, of "Star b # r1"] r1 by simp
  then show ?case using nth_shift [of i n c' cs] by auto
next
  case (10 ic b r prev i os caps)
  obtain r1 where r1: "r0 = Star b # r1" "r = r1 @ [One a]" using "10.prems"(2) by (cases r0) auto
  then show ?case using "10.IH" [OF _ r1(2)] "10.prems" by auto
next
  case (11 ic b r prev c' cs i os caps)
  obtain r1 where r1: "r0 = Star b # r1" "r = r1 @ [One a]" using "11.prems"(2) by (cases r0) auto
  show ?case
  proof (cases "cset_mem ic b c'")
    case True
    show ?thesis
    proof (cases "rx_match ic (Star b # r) (Some c') cs (Suc i) os caps")
      case None
      then show ?thesis using "11.IH"(2) [OF True None _ r1(2)] "11.prems" True r1 by auto
    next
      case (Some x)
      then have x: "x = (n, c)" using "11.prems" True r1 by simp
      have "Suc i < n \<and> n \<le> Suc i + length cs \<and> cset_mem ic a (cs ! (n - Suc i - 1))"
        using "11.IH"(1) [OF True Some [unfolded x], of r0] r1 "11.prems" by simp
      then show ?thesis using nth_shift [of i n c' cs] by auto
    qed
  next
    case False
    then show ?thesis using "11.IH"(3) [OF False _ r1(2)] "11.prems" r1 by auto
  qed
qed

lemma attr_match_last:
  assumes "rx_at (attrRegex name) prev u = Some (m, post, gs)"
  shows "m \<noteq> [] \<and> last m = DQ"
proof -
  obtain k caps where k: "rx_match True (items (attrRegex name)) prev u 0 [] [] = Some (k, caps)"
      and m: "m = take k u"
    using assms by (auto simp: rx_at_def attrRegex_def split: option.splits)
  have "items (attrRegex name) = (Plus Ws # lits name @ lits ''=\"'' @ [Star (Except DQ)]) @ [One (Lit DQ)]"
    by (simp add: attrRegex_def)
  from rx_match_last [OF k this] have b: "0 < k" "k \<le> length u" "u ! (k - 1) = DQ" by simp_all
  have ne: "take k u \<noteq> []" using b by auto
  have "length (take k u) = k" using b by simp
  then have "last (take k u) = take k u ! (k - 1)" using ne by (simp add: last_conv_nth)
  also have "\<dots> = u ! (k - 1)" using b by simp
  finally show ?thesis using b m ne by simp
qed

lemma replace_all_nil:
  assumes "\<And>prev u m post gs. rx_at re prev u = Some (m, post, gs) \<Longrightarrow> m \<noteq> []"
  shows "replace_all re [] pre [] = []"
proof (cases "rx_at re (if pre = [] then None else Some (last pre)) []")
  case None
  then show ?thesis by (simp add: replace_all.simps [of re "[]" pre "[]"])
next
  case (Some x)
  obtain m post gs where x: "x = (m, post, gs)" by (cases x) auto
  have "m \<noteq> []" using assms [OF Some [unfolded x]] .
  moreover have "m = []" using Some x by (auto simp: rx_at_def split: option.splits)
  ultimately show ?thesis by simp
qed

lemma replace_all_keeps_last:
  "(\<And>prev u m post gs. rx_at re prev u = Some (m, post, gs) \<Longrightarrow> m \<noteq> [] \<and> last m \<noteq> g) \<Longrightarrow>
   s = b @ [g] \<Longrightarrow> \<exists>b'. replace_all re [] pre s = b' @ [g] \<and> set b' \<subseteq> set b"
proof (induction re "[] :: string" pre s arbitrary: b rule: replace_all.induct)
  case (1 re pre s)
  note Q' = "1.prems"(1)
  show ?case
  proof (cases "rx_at re (if pre = [] then None else Some (last pre)) s")
    case None
    show ?thesis
    proof (cases b)
      case Nil
      have "replace_all re [] (pre @ [g]) [] = []"
        using Q' by (intro replace_all_nil) blast
      then show ?thesis using None Nil "1.prems"(2)
        by (simp add: replace_all.simps [of re "[]" pre "[g]"])
    next
      case (Cons c b1)
      then have s: "s = c # (b1 @ [g])" using "1.prems"(2) by simp
      have "\<exists>b'. replace_all re [] (pre @ [c]) (b1 @ [g]) = b' @ [g] \<and> set b' \<subseteq> set b1"
        apply (rule "1.hyps"(1) [OF None s])
         apply (erule Q')
        apply simp
        done
      then obtain b' where "replace_all re [] (pre @ [c]) (b1 @ [g]) = b' @ [g]" "set b' \<subseteq> set b1" by blast
      then show ?thesis using None s Cons
        by (intro exI [of _ "c # b'"]) (auto simp: replace_all.simps [of re "[]" pre "c # b1 @ [g]"])
    qed
  next
    case (Some x)
    obtain m post gs where x: "x = (m, post, gs)" by (cases x) auto
    have m: "m \<noteq> []" "last m \<noteq> g" using Q' [OF Some [unfolded x]] by simp_all
    have p: "post = drop (length m) s" "m @ drop (length m) s = s"
      using rx_at_parts [OF Some [unfolded x]] by simp_all
    have "post \<noteq> []"
    proof
      assume "post = []"
      then have "m = s" using p by simp
      then show False using m "1.prems"(2) by simp
    qed
    then have lm: "length m \<le> length b" using p "1.prems"(2) by (cases "length m \<le> length b") auto
    then have d: "drop (length m) s = drop (length m) b @ [g]" using "1.prems"(2) by simp
    have "\<exists>b'. replace_all re [] (pre @ m) (drop (length m) s) = b' @ [g]
        \<and> set b' \<subseteq> set (drop (length m) b)"
      apply (rule "1.hyps"(3) [OF Some [unfolded x] refl refl m(1)])
       apply (erule Q')
      apply (rule d)
      done
    then obtain b' where "replace_all re [] (pre @ m) (drop (length m) s) = b' @ [g]"
        "set b' \<subseteq> set (drop (length m) b)" by blast
    then show ?thesis using Some x m(1) set_drop_subset [of "length m" b]
      by (intro exI [of _ b']) (auto simp: replace_all.simps [of re "[]" pre s])
  qed
qed

lemma attr_keeps_close:
  "\<exists>b'. replace_all (attrRegex name) [] [] (b @ ''>'') = b' @ ''>'' \<and> set b' \<subseteq> set b"
proof (rule replace_all_keeps_last)
  show "b @ ''>'' = b @ [CHR ''>'']" by simp
next
  fix prev u m post gs
  assume "rx_at (attrRegex name) prev u = Some (m, post, gs)"
  from attr_match_last [OF this] show "m \<noteq> [] \<and> last m \<noteq> CHR ''>''" by simp
qed

lemma strip_attrs_keeps_close:
  "\<exists>b'. strip_attrs (b @ ''>'') = b' @ ''>'' \<and> set b' \<subseteq> set b"
proof -
  obtain b1 where b1: "replace_all (attrRegex ''long-name'') [] [] (b @ ''>'') = b1 @ ''>''" "set b1 \<subseteq> set b"
    using attr_keeps_close [of "''long-name''" b] by blast
  obtain b2 where b2: "replace_all (attrRegex ''value'') [] [] (b1 @ ''>'') = b2 @ ''>''" "set b2 \<subseteq> set b1"
    using attr_keeps_close [of "''value''" b1] by blast
  obtain b3 where b3: "replace_all (attrRegex ''region'') [] [] (b2 @ ''>'') = b3 @ ''>''" "set b3 \<subseteq> set b2"
    using attr_keeps_close [of "''region''" b2] by blast
  show ?thesis using b1 b2 b3 by (intro exI [of _ b3]) (auto simp: strip_attrs_def)
qed

lemma close_search:
  "CHR ''>'' \<notin> set b \<Longrightarrow> rx_search closeRegex pre (b @ ''>'') = Some (pre @ b, ''>'', [], [])"
proof (induction b arbitrary: pre)
  case Nil
  have "rx_at closeRegex (if pre = [] then None else Some (last pre)) ''>'' = Some (''>'', [], [])"
    by (simp add: rx_at_def closeRegex_def)
  then show ?case by (simp add: rx_search.simps [of closeRegex pre "''>''"])
next
  case (Cons c b)
  then have "c \<noteq> CHR ''>''" by auto
  then have "rx_at closeRegex (if pre = [] then None else Some (last pre)) (c # b @ ''>'') = None"
    by (simp add: rx_at_def closeRegex_def)
  then show ?case using Cons.IH [of "pre @ [c]"] Cons.prems
    by (simp add: rx_search.simps [of closeRegex pre "c # b @ ''>''"])
qed

lemma remove_close: "CHR ''>'' \<notin> set b \<Longrightarrow> replace_first closeRegex [] (b @ ''>'') = b"
  by (simp add: replace_first_def close_search)

lemma rx_match_lits:
  "rx_match ic (lits w @ r) prev s i os caps = Some res \<Longrightarrow>
   \<exists>p rest. s = p @ rest \<and> length p = length w \<and> list_all2 (\<lambda>a c. cset_mem ic (Lit a) c) w p
     \<and> rx_match ic r (if w = [] then prev else Some (last p)) rest (i + length w) os caps = Some res"
proof (induction w arbitrary: s prev i)
  case Nil
  then show ?case by (simp add: lits_def)
next
  case (Cons a w)
  then obtain c cs where s: "s = c # cs" by (cases s) (auto simp: lits_def)
  have m: "cset_mem ic (Lit a) c" using Cons.prems s
    by (simp add: lits_def del: cset_mem.simps split: if_splits)
  have "rx_match ic (lits w @ r) (Some c) cs (Suc i) os caps = Some res"
    using Cons.prems s m by (simp add: lits_def del: cset_mem.simps)
  from Cons.IH [OF this] obtain p rest where p: "cs = p @ rest" "length p = length w"
      "list_all2 (\<lambda>a c. cset_mem ic (Lit a) c) w p"
      "rx_match ic r (if w = [] then Some c else Some (last p)) rest (Suc i + length w) os caps = Some res"
    by blast
  have "(if w = [] then Some c else Some (last p)) = Some (last (c # p))"
    using p(2) by (cases w; cases p) auto
  then show ?case using p s m
    by (intro exI [of _ "c # p"] exI [of _ rest]) (simp del: cset_mem.simps)
qed

lemma star_except:
  "rx_match ic [Star (Except (CHR ''>'')), One (Lit (CHR ''>''))] prev s i os caps = Some (n, c) \<Longrightarrow>
   \<exists>b rest. s = b @ CHR ''>'' # rest \<and> CHR ''>'' \<notin> set b \<and> n = i + length b + 1"
proof (induction s arbitrary: prev i)
  case Nil
  then show ?case by simp
next
  case (Cons x s)
  show ?case
  proof (cases "x = CHR ''>''")
    case True
    then have "n = Suc i" using Cons.prems by (simp del: cset_mem.simps)
    then show ?thesis using True by (intro exI [of _ "[]"] exI [of _ s]) simp
  next
    case False
    then have "rx_match ic [Star (Except (CHR ''>'')), One (Lit (CHR ''>''))] (Some x) s (Suc i) os caps = Some (n, c)"
      using Cons.prems by (simp del: cset_mem.simps split: option.splits)
    from Cons.IH [OF this] obtain b rest where "s = b @ CHR ''>'' # rest" "CHR ''>'' \<notin> set b"
      "n = Suc i + length b + 1" by blast
    then show ?thesis using False by (intro exI [of _ "x # b"] exI [of _ rest]) auto
  qed
qed

lemma word_h: "canonicalize c = canonicalize (CHR ''h'') \<Longrightarrow> is_word c"
  using canonicalize_word [of c "CHR ''h''"] by (simp add: is_word_def)

lemma path_match:
  assumes "rx_at pathRegex prev s = Some (m, post, gs)"
  shows "is_path_tag m"
proof -
  obtain k caps where k: "rx_match True (lits ''<path'' @ [Boundary, Star (Except (CHR ''>'')), One (Lit (CHR ''>''))])
        prev s 0 [] [] = Some (k, caps)" and m: "m = take k s"
    using assms by (auto simp: rx_at_def pathRegex_def split: option.splits)
  from rx_match_lits [OF k] obtain p rest where p0: "s = p @ rest" "length p = length ''<path''"
      "list_all2 (\<lambda>a c. cset_mem True (Lit a) c) ''<path'' p"
      "rx_match True [Boundary, Star (Except (CHR ''>'')), One (Lit (CHR ''>''))]
         (if ''<path'' = [] then prev else Some (last p)) rest (0 + length ''<path'') [] []
         = Some (k, caps)"
    by blast
  have e1: "(if ''<path'' = [] then prev else Some (last p)) = Some (last p)" by simp
  have e2: "0 + length ''<path'' = (5::nat)" by simp
  have p: "s = p @ rest" "length p = 5"
      "list_all2 (\<lambda>a c. cset_mem True (Lit a) c) ''<path'' p"
      "rx_match True [Boundary, Star (Except (CHR ''>'')), One (Lit (CHR ''>''))] (Some (last p)) rest 5 [] []
         = Some (k, caps)"
    using p0(1) p0(2) p0(3) p0(4) [unfolded e1 e2] by simp_all
  obtain c1 c2 c3 c4 c5 where p5: "p = [c1, c2, c3, c4, c5]"
    using p(2) by (cases p; simp; cases "tl p"; simp; cases "tl (tl p)"; simp;
                   cases "tl (tl (tl p))"; simp; cases "tl (tl (tl (tl p)))"; simp)
  have f: "map canonicalize p = map canonicalize ''<path''" using p(3) p5 by simp
  have h: "is_word (last p)" using p(3) p5 by (simp add: word_h)
  have ngt: "CHR ''>'' \<notin> set p"
  proof
    assume "CHR ''>'' \<in> set p"
    then have "canonicalize (CHR ''>'') \<in> set (map canonicalize ''<path'')" using f by (metis imageI set_map)
    then show False by auto
  qed
  have b1: "\<not> word_at (case rest of [] \<Rightarrow> None | c # x \<Rightarrow> Some c)"
    and r: "rx_match True [Star (Except (CHR ''>'')), One (Lit (CHR ''>''))] (Some (last p)) rest 5 [] [] = Some (k, caps)"
    using p(4) h by (auto simp: word_at_def split: if_splits)
  from star_except [OF r] obtain b rest' where b: "rest = b @ CHR ''>'' # rest'" "CHR ''>'' \<notin> set b"
      "k = 5 + length b + 1" by blast
  have mm: "m = p @ b @ ''>''" using m p(1,2) b by simp
  have six: "\<not> is_word ((b @ ''>'') ! 0)" using b1 b(1) by (cases b) (auto simp: word_at_def)
  show ?thesis unfolding is_path_tag_def mm
    using p(2) f ngt b(2) six by (simp add: nth_append butlast_append)
qed

lemma tag_in_segments:
  "Tag t \<in> set (segments re pre s) \<Longrightarrow> \<exists>prev u post gs. rx_at re prev u = Some (t, post, gs)"
proof (induction re pre s rule: segments.induct)
  case (1 re pre s)
  note e = "1.prems" [unfolded segments.simps [of re pre s]]
  show ?case
  proof (cases "rx_at re (if pre = [] then None else Some (last pre)) s")
    case None
    then show ?thesis using "1.IH"(1) [OF None] e by (cases s) auto
  next
    case (Some x)
    obtain m post groups where x: "x = (m, post, groups)" by (cases x) auto
    show ?thesis
    proof (cases "m = []")
      case True
      then show ?thesis using Some x "1.IH"(2) [OF Some [unfolded x] refl refl True] e
        by (cases s) auto
    next
      case False
      then show ?thesis using Some x "1.IH"(3) [OF Some [unfolded x] refl refl False] e
        by auto
    qed
  qed
qed

lemma path_tag_form: "is_path_tag t \<Longrightarrow> \<exists>b. t = b @ ''>'' \<and> CHR ''>'' \<notin> set b"
proof -
  assume a: "is_path_tag t"
  then have "t \<noteq> []" by (auto simp: is_path_tag_def)
  then have "t = butlast t @ [last t]" by simp
  then show ?thesis using a by (intro exI [of _ "butlast t"]) (auto simp: is_path_tag_def)
qed

lemma substitute_plain:
  "CHR ''$'' \<notin> set t \<Longrightarrow>
   substitute pre m post gs (t @ ''$1'') = t @ (case gs of [] \<Rightarrow> ''$1'' | g # x \<Rightarrow> g)"
proof (induction t)
  case Nil
  show ?case by (cases gs) (simp_all add: is_digit_def digit_val_def)
next
  case (Cons c t)
  then obtain d u where u: "t @ ''$1'' = d # u" by (cases "t @ ''$1''") auto
  have "c \<noteq> CHR ''$''" using Cons.prems by auto
  then have "substitute pre m post gs (c # d # u) = c # substitute pre m post gs (d # u)"
    by simp
  then show ?case using Cons u by simp
qed

lemma rx_search_sound:
  "rx_search re pre s = Some (a, m, post, gs) \<Longrightarrow>
   \<exists>u. a = pre @ u \<and> s = u @ m @ post
     \<and> rx_at re (if a = [] then None else Some (last a)) (m @ post) = Some (m, post, gs)"
proof (induction re pre s rule: rx_search.induct)
  case (1 re pre s)
  note e = "1.prems" [unfolded rx_search.simps [of re pre s]]
  show ?case
  proof (cases "rx_at re (if pre = [] then None else Some (last pre)) s")
    case None
    then obtain c cs where s: "s = c # cs" using e by (cases s) auto
    have "rx_search re (pre @ [c]) cs = Some (a, m, post, gs)" using e None s by simp
    from "1.IH" [OF None s this] obtain u where "a = (pre @ [c]) @ u" "cs = u @ m @ post"
      "rx_at re (if a = [] then None else Some (last a)) (m @ post) = Some (m, post, gs)" by blast
    then show ?thesis using s by (intro exI [of _ "c # u"]) simp
  next
    case (Some x)
    then have x: "x = (m, post, gs)" "a = pre" using e by (auto split: prod.splits)
    have "s = m @ post" using rx_at_parts [OF Some [unfolded x(1)]] by simp
    then show ?thesis using Some x by (cases "pre = []") simp_all
  qed
qed

lemma rx_search_complete:
  "rx_at re (if pre @ u = [] then None else Some (last (pre @ u))) w \<noteq> None \<Longrightarrow>
   rx_search re pre (u @ w) \<noteq> None"
proof (induction u arbitrary: pre)
  case Nil
  then show ?case by (auto simp: rx_search.simps [of re pre w])
next
  case (Cons c u)
  show ?case
  proof (cases "rx_at re (if pre = [] then None else Some (last pre)) (c # u @ w)")
    case None
    have "rx_search re (pre @ [c]) (u @ w) \<noteq> None" using Cons.IH [of "pre @ [c]"] Cons.prems by simp
    then show ?thesis using None by (simp add: rx_search.simps [of re pre "c # u @ w"])
  next
    case (Some x)
    then show ?thesis by (auto simp: rx_search.simps [of re pre "c # u @ w"] split: prod.splits)
  qed
qed

lemma rx_match_lits_forward:
  "list_all2 (\<lambda>a c. cset_mem ic (Lit a) c) w p \<Longrightarrow>
   rx_match ic (lits w @ r) prev (p @ rest) i os caps
     = rx_match ic r (if w = [] then prev else Some (last p)) rest (i + length w) os caps"
proof (induction w p arbitrary: prev i rule: list_all2_induct)
  case Nil
  then show ?case by (simp add: lits_def)
next
  case (Cons a w c p)
  have "(if w = [] then Some c else Some (last p)) = Some (last (c # p))"
    using Cons.hyps(2) by (cases w; cases p) auto
  then show ?case using Cons.hyps(1) Cons.IH [of "Some c" "Suc i"]
    by (simp add: lits_def del: cset_mem.simps)
qed

lemma rx_match_group:
  "rx_match ic r prev s i os caps = Some (n, c) \<Longrightarrow> r = r0 @ [Close] \<Longrightarrow>
   Open \<notin> set r0 \<Longrightarrow> Close \<notin> set r0 \<Longrightarrow> os = [b] \<Longrightarrow> c = caps @ [(b, n)]"
proof (induction ic r prev s i os caps arbitrary: r0 rule: rx_match.induct)
  case (1 ic prev s i os caps)
  then show ?case by simp
next
  case (2 ic r prev s i os caps)
  have False using "2.prems"(2,3) by (cases r0) auto
  then show ?case ..
next
  case (3 ic r prev s i os caps)
  have "r0 = []" using "3.prems"(2,4) by (cases r0) auto
  then have "r = []" using "3.prems"(2) by simp
  then have e: "rx_match ic [Close] prev s i [b] caps = Some (n, c)"
    using "3.prems"(1,5) by (simp del: rx_match.simps)
  have f: "rx_match ic [Close] prev s i [b] caps = Some (i, caps @ [(b, i)])" by simp
  have "Some (n, c) = Some (i, caps @ [(b, i)])" unfolding e [symmetric] by (rule f)
  then show ?case by simp
next
  case (4 ic r prev s i os caps)
  obtain r1 where r1: "r0 = Boundary # r1" "r = r1 @ [Close]" using "4.prems"(2) by (cases r0) auto
  have "rx_match ic r prev s i os caps = Some (n, c)" using "4.prems"(1) by (simp split: if_splits)
  moreover have "word_at prev \<noteq> word_at (case s of [] \<Rightarrow> None | c # x \<Rightarrow> Some c)"
    using "4.prems"(1) by (simp split: if_splits)
  ultimately show ?case using "4.IH" [OF _ _ r1(2)] "4.prems"(3,4,5) r1(1) by simp
next
  case (5 ic r prev s i os caps)
  obtain r1 where r1: "r0 = End # r1" "r = r1 @ [Close]" using "5.prems"(2) by (cases r0) auto
  have "s = []" "rx_match ic r prev s i os caps = Some (n, c)" using "5.prems"(1) by (simp_all split: if_splits)
  then show ?case using "5.IH" [OF _ _ r1(2)] "5.prems"(3,4,5) r1(1) by simp
next
  case (6 ic a r prev i os caps)
  show ?case using "6.prems"(1) by simp
next
  case (7 ic a r prev c' cs i os caps)
  obtain r1 where r1: "r0 = One a # r1" "r = r1 @ [Close]" using "7.prems"(2) by (cases r0) auto
  have m: "cset_mem ic a c'" using "7.prems"(1) by (simp split: if_splits)
  have "rx_match ic r (Some c') cs (Suc i) os caps = Some (n, c)" using "7.prems"(1) m by simp
  then show ?case using "7.IH" [OF m _ r1(2)] "7.prems"(3,4,5) r1(1) by simp
next
  case (8 ic a r prev i os caps)
  show ?case using "8.prems"(1) by simp
next
  case (9 ic a r prev c' cs i os caps)
  obtain r1 where r1: "r0 = Plus a # r1" "r = r1 @ [Close]" using "9.prems"(2) by (cases r0) auto
  have m: "cset_mem ic a c'" using "9.prems"(1) by (simp split: if_splits)
  have "rx_match ic (Star a # r) (Some c') cs (Suc i) os caps = Some (n, c)" using "9.prems"(1) m by simp
  then show ?case using "9.IH" [OF m _ , of "Star a # r1"] "9.prems"(3,4,5) r1 by simp
next
  case (10 ic a r prev i os caps)
  obtain r1 where r1: "r0 = Star a # r1" "r = r1 @ [Close]" using "10.prems"(2) by (cases r0) auto
  have "rx_match ic r prev [] i os caps = Some (n, c)" using "10.prems"(1) by simp
  then show ?case using "10.IH" [OF _ r1(2)] "10.prems"(3,4,5) r1(1) by simp
next
  case (11 ic a r prev c' cs i os caps)
  obtain r1 where r1: "r0 = Star a # r1" "r = r1 @ [Close]" using "11.prems"(2) by (cases r0) auto
  show ?case
  proof (cases "cset_mem ic a c'")
    case True
    show ?thesis
    proof (cases "rx_match ic (Star a # r) (Some c') cs (Suc i) os caps")
      case None
      then have "rx_match ic r prev (c' # cs) i os caps = Some (n, c)" using "11.prems"(1) True by simp
      then show ?thesis using "11.IH"(2) [OF True None _ r1(2)] "11.prems"(3,4,5) r1(1) by simp
    next
      case (Some x)
      then have x: "x = (n, c)" using "11.prems"(1) True by simp
      show ?thesis by (rule "11.IH"(1) [OF True Some [unfolded x] "11.prems"(2,3,4,5)])
    qed
  next
    case False
    then have "rx_match ic r prev (c' # cs) i os caps = Some (n, c)" using "11.prems"(1) by simp
    then show ?thesis using "11.IH"(3) [OF False _ r1(2)] "11.prems"(3,4,5) r1(1) by simp
  qed
qed

lemma idInsert_group:
  assumes "rx_at idInsertRegex prev u = Some (m, post, gs)"
  shows "gs = [m]"
proof -
  obtain k caps where k: "rx_match True (Open # (Plus Ws # lits ''id=\"'') @ [Close]) prev u 0 [] [] = Some (k, caps)"
      and m: "m = take k u" and g: "gs = map (\<lambda>(a, b). take (b - a) (drop a u)) caps"
    using assms by (auto simp: rx_at_def idInsertRegex_def split: option.splits)
  have "rx_match True ((Plus Ws # lits ''id=\"'') @ [Close]) prev u 0 [0] [] = Some (k, caps)"
    using k by simp
  from rx_match_group [OF this refl _ _ refl] have "caps = [] @ [(0, k)]"
    by (simp add: lits_def)
  then show ?thesis using m g by simp
qed

lemma not_space_i: "canonicalize c = canonicalize (CHR ''i'') \<Longrightarrow> \<not> is_space c"
  using canonicalize_space [of c "CHR ''i''"] by (simp add: is_space_def)

lemma id_then_insert:
  assumes "rx_at idRegex prev w \<noteq> None"
  shows "rx_at idInsertRegex prev w \<noteq> None"
proof -
  let ?R = "[Open, Star (Except DQ), Close, One (Lit DQ)]"
  obtain res where k: "rx_match True (One Ws # lits ''id=\"'' @ ?R) prev w 0 [] [] = Some res"
    using assms by (auto simp: rx_at_def idRegex_def split: option.splits)
  then obtain c w1 where w: "w = c # w1" by (cases w) auto
  have sp: "is_space c" using k w by (simp split: if_splits)
  have "rx_match True (lits ''id=\"'' @ ?R) (Some c) w1 (Suc 0) [] [] = Some res"
    using k w sp by simp
  from rx_match_lits [OF this] obtain p rest where p: "w1 = p @ rest" "length p = length ''id=\"''"
      "list_all2 (\<lambda>a c. cset_mem True (Lit a) c) ''id=\"'' p" by blast
  obtain p1 p' where p1: "p = p1 # p'" using p(2) by (cases p) auto
  have ns: "\<not> is_space p1" using p(3) p1 by (simp add: not_space_i)
  have "rx_match True (lits ''id=\"'' @ [Close]) (Some c) (p @ rest) (Suc 0) [0] []
      = rx_match True [Close] (if ''id=\"'' = [] then Some c else Some (last p)) rest (Suc 0 + length ''id=\"'') [0] []"
    by (rule rx_match_lits_forward [OF p(3)])
  then have "rx_match True (lits ''id=\"'' @ [Close]) (Some c) (p @ rest) (Suc 0) [0] [] \<noteq> None"
    by simp
  moreover have "rx_match True (Star Ws # lits ''id=\"'' @ [Close]) (Some c) (p1 # p' @ rest) (Suc 0) [0] []
      = rx_match True (lits ''id=\"'' @ [Close]) (Some c) (p1 # p' @ rest) (Suc 0) [0] []"
    using ns by simp
  ultimately have "rx_match True (Open # Plus Ws # lits ''id=\"'' @ [Close]) prev w 0 [] [] \<noteq> None"
    using w p(1) p1 sp by simp
  then show ?thesis by (auto simp: rx_at_def idInsertRegex_def split: option.splits)
qed

lemma insert_found:
  assumes "rx_search idRegex [] s \<noteq> None"
  shows "\<exists>pre m post. rx_search idInsertRegex [] s = Some (pre, m, post, [m]) \<and> s = pre @ m @ post"
proof -
  obtain a m post gs where f: "rx_search idRegex [] s = Some (a, m, post, gs)"
    using assms by (cases "rx_search idRegex [] s") auto
  from rx_search_sound [OF f] have s: "s = a @ m @ post"
    and at: "rx_at idRegex (if a = [] then None else Some (last a)) (m @ post) = Some (m, post, gs)"
    by auto
  have "rx_at idInsertRegex (if a = [] then None else Some (last a)) (m @ post) \<noteq> None"
    by (rule id_then_insert) (simp add: at)
  then have "rx_at idInsertRegex (if [] @ a = [] then None else Some (last ([] @ a))) (m @ post) \<noteq> None"
    by (cases "a = []") simp_all
  from rx_search_complete [OF this] have "rx_search idInsertRegex [] s \<noteq> None" using s by simp
  then obtain a' m' post' gs' where f': "rx_search idInsertRegex [] s = Some (a', m', post', gs')"
    by (cases "rx_search idInsertRegex [] s") auto
  from rx_search_sound [OF f'] have s': "s = a' @ m' @ post'"
    and "rx_at idInsertRegex (if a' = [] then None else Some (last a')) (m' @ post') = Some (m', post', gs')"
    by auto
  then have "gs' = [m']" using idInsert_group by blast
  then show ?thesis using f' s' by blast
qed

lemma star_ws_run:
  "rx_match ic (Star Ws # lits w @ r) prev s i os caps = Some res \<Longrightarrow>
   \<exists>ws rest prev'. s = ws @ rest \<and> (\<forall>c \<in> set ws. is_space c)
     \<and> rx_match ic (lits w @ r) prev' rest (i + length ws) os caps = Some res"
proof (induction s arbitrary: prev i)
  case Nil
  then show ?case by (intro exI [of _ "[]"]) auto
next
  case (Cons c s)
  show ?case
  proof (cases "is_space c \<and> rx_match ic (Star Ws # lits w @ r) (Some c) s (Suc i) os caps \<noteq> None")
    case True
    then have "rx_match ic (Star Ws # lits w @ r) (Some c) s (Suc i) os caps = Some res"
      using Cons.prems by auto
    from Cons.IH [OF this] obtain ws rest prev' where "s = ws @ rest" "\<forall>c \<in> set ws. is_space c"
      "rx_match ic (lits w @ r) prev' rest (Suc i + length ws) os caps = Some res" by blast
    then show ?thesis using True by (intro exI [of _ "c # ws"] exI [of _ rest] exI [of _ prev']) auto
  next
    case False
    then have "rx_match ic (lits w @ r) prev (c # s) i os caps = Some res"
      using Cons.prems by (auto split: if_splits option.splits)
    then show ?thesis by (intro exI [of _ "[]"] exI [of _ "c # s"] exI [of _ prev]) auto
  qed
qed

lemma idInsert_form:
  assumes "rx_at idInsertRegex prev u = Some (m, post, gs)"
  shows "\<exists>ws x. m = ws @ x \<and> ws \<noteq> [] \<and> (\<forall>c \<in> set ws. is_space c)
           \<and> map canonicalize x = map canonicalize ''id=\"''"
proof -
  obtain k caps where k: "rx_match True (Open # Plus Ws # lits ''id=\"'' @ [Close]) prev u 0 [] [] = Some (k, caps)"
      and m: "m = take k u"
    using assms by (auto simp: rx_at_def idInsertRegex_def split: option.splits)
  then obtain c u1 where u: "u = c # u1" by (cases u) auto
  have sp: "is_space c" using k u by (simp split: if_splits)
  have "rx_match True (Star Ws # lits ''id=\"'' @ [Close]) (Some c) u1 (Suc 0) [0] [] = Some (k, caps)"
    using k u sp by simp
  from star_ws_run [OF this] obtain ws rest prev' where ws: "u1 = ws @ rest" "\<forall>c \<in> set ws. is_space c"
      "rx_match True (lits ''id=\"'' @ [Close]) prev' rest (Suc 0 + length ws) [0] [] = Some (k, caps)"
    by blast
  from rx_match_lits [OF ws(3)] obtain p rest' where p: "rest = p @ rest'" "length p = length ''id=\"''"
      "list_all2 (\<lambda>a c. cset_mem True (Lit a) c) ''id=\"'' p"
      "rx_match True [Close] (if ''id=\"'' = [] then prev' else Some (last p)) rest'
         (Suc 0 + length ws + length ''id=\"'') [0] [] = Some (k, caps)"
    by blast
  obtain p1 p2 p3 p4 where p4: "p = [p1, p2, p3, p4]"
    using p(2) by (cases p; simp; cases "tl p"; simp; cases "tl (tl p)"; simp; cases "tl (tl (tl p))"; simp)
  have kk: "k = length (c # ws @ p)" using p(4) p4 by simp
  have f: "map canonicalize p = map canonicalize ''id=\"''" using p(3) p4 by simp
  have "u = (c # ws @ p) @ rest'" using u ws(1) p(1) by simp
  then have "m = c # ws @ p" unfolding m kk by (simp only: append_eq_conv_conj take_all_iff append_take_drop_id take_append order_refl diff_self_eq_0 take_0 append_Nil2)
  then have "m = (c # ws) @ p" by simp
  then show ?thesis using sp ws(2) f by (intro exI [of _ "c # ws"] exI [of _ p]) auto
qed

lemma editTag_without_id:
  assumes "is_path_tag t" "rx_search idRegex [] (strip_attrs t) = None"
    "tag_resolution lookup t = Some (ln, v, r)"
  shows "editTag lookup t = Some (butlast (strip_attrs t) @ newlineAttrs ln v r @ ''>'')"
proof -
  obtain b where b: "t = b @ ''>''" "CHR ''>'' \<notin> set b" using path_tag_form [OF assms(1)] by blast
  obtain b' where b': "strip_attrs t = b' @ ''>''" "set b' \<subseteq> set b"
    using strip_attrs_keeps_close [of b] b(1) by auto
  have "CHR ''>'' \<notin> set b'" using b(2) b'(2) by auto
  then have "replace_first closeRegex [] (strip_attrs t) = butlast (strip_attrs t)"
    using b'(1) by (simp add: remove_close)
  then show ?thesis using assms(2,3) by (simp add: editTag_resolution)
qed

lemma editTag_with_id:
  assumes "rx_search idRegex [] (strip_attrs t) \<noteq> None" "tag_resolution lookup t = Some (ln, v, r)"
    "CHR ''$'' \<notin> set (newlineAttrs ln v r)"
  shows "\<exists>pre ws x post. strip_attrs t = pre @ ws @ x @ post \<and> ws \<noteq> [] \<and> (\<forall>c \<in> set ws. is_space c)
           \<and> map canonicalize x = map canonicalize ''id=\"''
           \<and> editTag lookup t = Some (pre @ newlineAttrs ln v r @ ws @ x @ post)"
proof -
  obtain pre m post where f: "rx_search idInsertRegex [] (strip_attrs t) = Some (pre, m, post, [m])"
      "strip_attrs t = pre @ m @ post"
    using insert_found [OF assms(1)] by blast
  from rx_search_sound [OF f(1)]
  have "rx_at idInsertRegex (if pre = [] then None else Some (last pre)) (m @ post) = Some (m, post, [m])"
    by auto
  from idInsert_form [OF this] obtain ws x where w: "m = ws @ x" "ws \<noteq> []" "\<forall>c \<in> set ws. is_space c"
      "map canonicalize x = map canonicalize ''id=\"''" by blast
  have "replace_first idInsertRegex (newlineAttrs ln v r @ ''$1'') (strip_attrs t)
      = pre @ newlineAttrs ln v r @ m @ post"
    using f(1) assms(3) by (simp add: replace_first_def substitute_plain)
  then have ed: "editTag lookup t = Some (pre @ newlineAttrs ln v r @ ws @ x @ post)"
    using assms(1,2) w(1) by (simp add: editTag_resolution)
  have st: "strip_attrs t = pre @ ws @ x @ post" using f(2) w(1) by simp
  show ?thesis using st ed w(2,3,4) by blast
qed

lemma replace_all_chars:
  "(\<And>pre m post gs. substitute pre m post gs template = template) \<Longrightarrow>
   set (replace_all re template pre s) \<subseteq> set s \<union> set template"
proof (induction re template pre s rule: replace_all.induct)
  case (1 re template pre s)
  note sub = "1.prems"
  show ?case
  proof (cases "rx_at re (if pre = [] then None else Some (last pre)) s")
    case None
    show ?thesis
    proof (cases s)
      case Nil
      then show ?thesis using None by (simp add: replace_all.simps [of re template pre "[]"])
    next
      case (Cons c cs)
      have "set (replace_all re template (pre @ [c]) cs) \<subseteq> set cs \<union> set template"
        by (rule "1.IH"(1) [OF None Cons sub])
      then show ?thesis using None Cons
        by (auto simp: replace_all.simps [of re template pre "c # cs"])
    qed
  next
    case (Some x)
    obtain m post gs where x: "x = (m, post, gs)" by (cases x) auto
    have p: "m @ drop (length m) s = s" using rx_at_parts [OF Some [unfolded x]] by simp
    show ?thesis
    proof (cases "m = []")
      case True
      show ?thesis
      proof (cases s)
        case Nil
        then show ?thesis using Some x True sub
          by (simp add: replace_all.simps [of re template pre "[]"])
      next
        case (Cons c cs)
        have "set (replace_all re template (pre @ [c]) cs) \<subseteq> set cs \<union> set template"
          by (rule "1.IH"(2) [OF Some [unfolded x] refl refl True Cons sub])
        then show ?thesis using Some x True Cons sub
          by (auto simp: replace_all.simps [of re template pre "c # cs"])
      qed
    next
      case False
      have "set (replace_all re template (pre @ m) (drop (length m) s))
          \<subseteq> set (drop (length m) s) \<union> set template"
        by (rule "1.IH"(3) [OF Some [unfolded x] refl refl False sub])
      moreover have "set (drop (length m) s) \<subseteq> set s" by (rule set_drop_subset)
      ultimately show ?thesis using Some x False sub
        by (auto simp: replace_all.simps [of re template pre s])
    qed
  qed
qed

lemma sanitize_chars: "set (sanitizeAttrValue (Some s)) \<subseteq> set s \<union> set ''&quot;''"
  unfolding sanitizeAttrValue_def option.case
  by (rule replace_all_chars) simp

lemma newlineAttrs_plain:
  assumes "CHR ''$'' \<notin> set (longName @ val @ region)"
  shows "CHR ''$'' \<notin> set (newlineAttrs longName val region)"
proof -
  have "CHR ''$'' \<notin> set (sanitizeAttrValue (Some s))" if "CHR ''$'' \<notin> set s" for s
    using sanitize_chars [of s] that by auto
  then show ?thesis using assms by (simp add: newlineAttrs_def indent_def)
qed

lemma found_group1: "group1 m = Some i \<Longrightarrow> m \<noteq> None"
  by (cases m) (auto simp: group1_def)


section \<open>The frame of the merge\<close>

text \<open>
  C4, as amended.  The output is the input with each span matched by the pattern of target
  tags replaced by the rewrite of that tag, and with every other character as it was; the
  matched spans have the form of a target tag.  The rewrite of a target tag without identifier
  is its stripped text with one block of the three attribute lines placed before the closing
  sign.  The rewrite of a tag with an identifier, when the attribute lines contain no dollar
  sign, is its stripped text with that one block placed before the white space that precedes
  \<^verbatim>\<open>id="\<close>.
\<close>

theorem C4_frame:
  "concat (map seg_text (segments pathRegex [] doc)) = doc
   \<and> (\<exists>outs. list_all2 (\<lambda>seg out. case seg of Text c \<Rightarrow> out = [c] | Tag t \<Rightarrow> editTag lookup t = Some out)
                 (segments pathRegex [] doc) outs
              \<and> editSvg doc lookup = Some (concat outs))
   \<and> (\<forall>t. Tag t \<in> set (segments pathRegex [] doc) \<longrightarrow> is_path_tag t)
   \<and> (\<forall>t ln v r. is_path_tag t \<and> tag_resolution lookup t = Some (ln, v, r)
          \<and> rx_search idRegex [] (strip_attrs t) = None \<longrightarrow>
        editTag lookup t = Some (butlast (strip_attrs t) @ newlineAttrs ln v r @ ''>''))
   \<and> (\<forall>t ln v r. tag_resolution lookup t = Some (ln, v, r)
          \<and> rx_search idRegex [] (strip_attrs t) \<noteq> None \<and> CHR ''$'' \<notin> set (newlineAttrs ln v r) \<longrightarrow>
        (\<exists>pre ws x post. strip_attrs t = pre @ ws @ x @ post \<and> ws \<noteq> [] \<and> (\<forall>c \<in> set ws. is_space c)
           \<and> map canonicalize x = map canonicalize ''id=\"''
           \<and> editTag lookup t = Some (pre @ newlineAttrs ln v r @ ws @ x @ post)))"
proof -
  let ?g = "\<lambda>t. the (editTag lookup t)"
  let ?segs = "segments pathRegex [] doc"
  have g: "editTag lookup = (\<lambda>t. Some (?g t))"
    using editTag_total [of lookup] by (intro ext) (metis option.sel)
  have "editSvg doc lookup = Some (concat (map (\<lambda>seg. case seg of Text c \<Rightarrow> [c] | Tag t \<Rightarrow> ?g t) ?segs))"
    unfolding editSvg_def by (subst g) (rule replace_all_fn_segments)
  moreover have "list_all2 (\<lambda>seg out. case seg of Text c \<Rightarrow> out = [c] | Tag t \<Rightarrow> editTag lookup t = Some out)
      ?segs (map (\<lambda>seg. case seg of Text c \<Rightarrow> [c] | Tag t \<Rightarrow> ?g t) ?segs)"
    unfolding list_all2_map2
    by (rule list_all2_refl) (use editTag_total [of lookup] in \<open>auto split: segment.splits\<close>)
  ultimately have frame: "\<exists>outs. list_all2 (\<lambda>seg out. case seg of Text c \<Rightarrow> out = [c] | Tag t \<Rightarrow> editTag lookup t = Some out)
       ?segs outs \<and> editSvg doc lookup = Some (concat outs)"
    by blast
  have tags: "\<forall>t. Tag t \<in> set ?segs \<longrightarrow> is_path_tag t"
    using tag_in_segments path_match by blast
  have noid: "\<forall>t ln v r. is_path_tag t \<and> tag_resolution lookup t = Some (ln, v, r)
          \<and> rx_search idRegex [] (strip_attrs t) = None \<longrightarrow>
        editTag lookup t = Some (butlast (strip_attrs t) @ newlineAttrs ln v r @ ''>'')"
    by (intro allI impI) (elim conjE, rule editTag_without_id)
  have withid: "\<forall>t ln v r. tag_resolution lookup t = Some (ln, v, r)
          \<and> rx_search idRegex [] (strip_attrs t) \<noteq> None \<and> CHR ''$'' \<notin> set (newlineAttrs ln v r) \<longrightarrow>
        (\<exists>pre ws x post. strip_attrs t = pre @ ws @ x @ post \<and> ws \<noteq> [] \<and> (\<forall>c \<in> set ws. is_space c)
           \<and> map canonicalize x = map canonicalize ''id=\"''
           \<and> editTag lookup t = Some (pre @ newlineAttrs ln v r @ ws @ x @ post))"
    by (intro allI impI) (elim conjE, rule editTag_with_id)
  show ?thesis
    by (intro conjI) (rule segments_concat, rule frame, rule tags, rule noid, rule withid)
qed

text \<open>
  The strip pass removes the occurrences it finds in three scans, one name after the other, so
  an occurrence that only forms when another one is removed stays: the rewritten tag below
  holds two occurrences of \<^verbatim>\<open>long-name\<close>, not one.
\<close>

theorem C4_counterexample:
  "segments pathRegex [] ''<path long-name= region=\"a\"\"b\">'' = [Tag ''<path long-name= region=\"a\"\"b\">'']
   \<and> editSvg ''<path long-name= region=\"a\"\"b\">'' \<lparr>byId = empty_obj, byLabel = empty_obj\<rparr>
       = Some ''<path long-name=\"b\"\<newline>    long-name=\"None\"\<newline>    value=\"0\"\<newline>    region=\"0\">''
   \<and> count_attr ''long-name'' ''<path long-name=\"b\"\<newline>    long-name=\"None\"\<newline>    value=\"0\"\<newline>    region=\"0\">'' = 2"
  by code_simp

theorem C4_witness:
  "concat (map seg_text (segments pathRegex [] ''<svg><path d=\"M0 0\"/><g id=\"a\"/></svg>''))
     = ''<svg><path d=\"M0 0\"/><g id=\"a\"/></svg>''
   \<and> Tag ''<path d=\"M0 0\"/>'' \<in> set (segments pathRegex [] ''<svg><path d=\"M0 0\"/><g id=\"a\"/></svg>'')
   \<and> is_path_tag ''<path d=\"M0 0\"/>''
   \<and> tag_resolution \<lparr>byId = empty_obj, byLabel = empty_obj\<rparr> ''<path d=\"M0 0\"/>'' = Some (''None'', ''0'', ''0'')
   \<and> rx_search idRegex [] (strip_attrs ''<path d=\"M0 0\"/>'') = None
   \<and> editTag \<lparr>byId = empty_obj, byLabel = empty_obj\<rparr> ''<path d=\"M0 0\"/>''
       = Some (butlast (strip_attrs ''<path d=\"M0 0\"/>'') @ newlineAttrs ''None'' ''0'' ''0'' @ ''>'')
   \<and> editSvg ''<svg><path d=\"M0 0\"/><g id=\"a\"/></svg>'' \<lparr>byId = empty_obj, byLabel = empty_obj\<rparr>
       = Some ''<svg><path d=\"M0 0\"/\<newline>    long-name=\"None\"\<newline>    value=\"0\"\<newline>    region=\"0\"><g id=\"a\"/></svg>''"
proof -
  let ?D = "''<svg><path d=\"M0 0\"/><g id=\"a\"/></svg>''"
  let ?T = "''<path d=\"M0 0\"/>''"
  let ?L = "\<lparr>byId = empty_obj, byLabel = empty_obj\<rparr>"
  note F = C4_frame [of ?D ?L]
  have c1: "concat (map seg_text (segments pathRegex [] ?D)) = ?D" by (rule F [THEN conjunct1])
  have m: "Tag ?T \<in> set (segments pathRegex [] ?D)" by code_simp
  have p: "is_path_tag ?T"
    using F [THEN conjunct2, THEN conjunct2, THEN conjunct1] m by blast
  have r: "tag_resolution ?L ?T = Some (''None'', ''0'', ''0'')" by code_simp
  have n: "rx_search idRegex [] (strip_attrs ?T) = None" by code_simp
  have e: "editTag ?L ?T = Some (butlast (strip_attrs ?T) @ newlineAttrs ''None'' ''0'' ''0'' @ ''>'')"
    using F [THEN conjunct2, THEN conjunct2, THEN conjunct2, THEN conjunct1] p r n by blast
  have o: "editSvg ?D ?L = Some ''<svg><path d=\"M0 0\"/\<newline>    long-name=\"None\"\<newline>    value=\"0\"\<newline>    region=\"0\"><g id=\"a\"/></svg>''"
    by code_simp
  show ?thesis using c1 m p r n e o by simp
qed

section \<open>The field splitter\<close>

lemma loop_plain:
  "DQ \<notin> set f \<Longrightarrow> CHR '','' \<notin> set f \<Longrightarrow>
   parseCSVLine_loop (f @ rest) q cur res = parseCSVLine_loop rest q (cur @ f) res"
  by (induction f arbitrary: cur) auto

lemma loop_escaped:
  "rest = [] \<or> hd rest \<noteq> DQ \<Longrightarrow>
   parseCSVLine_loop (csv_escape f @ DQ # rest) True cur res = parseCSVLine_loop rest False (cur @ f) res"
proof (induction f arbitrary: cur)
  case Nil
  then show ?case by (cases rest) auto
next
  case (Cons c f)
  show ?case
    using Cons.IH [OF Cons.prems, of "cur @ [c]"] by (cases "c = DQ") auto
qed

lemma loop_quote:
  "rest = [] \<or> hd rest \<noteq> DQ \<Longrightarrow>
   parseCSVLine_loop (csv_quote f @ rest) False cur res = parseCSVLine_loop rest False (cur @ f) res"
  using loop_escaped [of rest f cur res]
  by (cases "csv_escape f @ DQ # rest") (auto simp: csv_quote_def)

lemma loop_field:
  "rest = [] \<or> hd rest \<noteq> DQ \<Longrightarrow>
   parseCSVLine_loop (csv_field f @ rest) False cur res = parseCSVLine_loop rest False (cur @ f) res"
  by (simp add: csv_field_def loop_quote loop_plain)

lemma loop_join:
  "(\<And>f rest cur res. rest = [] \<or> hd rest \<noteq> DQ \<Longrightarrow>
      parseCSVLine_loop (enc f @ rest) False cur res = parseCSVLine_loop rest False (cur @ f) res) \<Longrightarrow>
   parseCSVLine_loop (csv_join (map enc (f # fs))) False [] res = res @ f # fs"
proof (induction fs arbitrary: f res)
  case Nil
  show ?case using Nil [of "[]" f "[]" res] by simp
next
  case (Cons g fs)
  have "parseCSVLine_loop (enc f @ CHR '','' # csv_join (map enc (g # fs))) False [] res
        = parseCSVLine_loop (CHR '','' # csv_join (map enc (g # fs))) False ([] @ f) res"
    by (rule Cons.prems) simp
  also have "\<dots> = parseCSVLine_loop (csv_join (map enc (g # fs))) False [] (res @ [f])"
    by simp
  also have "\<dots> = (res @ [f]) @ g # fs"
    by (rule Cons.IH) (rule Cons.prems)
  finally show ?case by simp
qed

text \<open>
  C6.  The field splitter honours quoted fields.  From any state of the loop: a quote toggles
  \<open>inQuotes\<close> unless it is the first of two quotes inside a quoted field, which give one literal
  quote; a comma closes the field outside quotes and is copied inside them; every other
  character is copied; the end of the line closes the last field.  Hence a line written with
  its fields quoted (always, or only where needed) splits back into those fields, and the row
  \<^verbatim>\<open>1,"Region, North",10,5\<close> under the header \<^verbatim>\<open>id,label,value,region\<close> parses to the record
  with id 1, label \<^verbatim>\<open>Region, North\<close>, value 10 and region 5.
\<close>

theorem C6_field_splitter:
  "(\<not> (q \<and> take 1 rest = [DQ]) \<longrightarrow>
      parseCSVLine_loop (DQ # rest) q cur res = parseCSVLine_loop rest (\<not> q) cur res)
   \<and> parseCSVLine_loop (DQ # DQ # rest) True cur res = parseCSVLine_loop rest True (cur @ [DQ]) res
   \<and> parseCSVLine_loop (CHR '','' # rest) False cur res = parseCSVLine_loop rest False [] (res @ [cur])
   \<and> parseCSVLine_loop (CHR '','' # rest) True cur res = parseCSVLine_loop rest True (cur @ '','') res
   \<and> (ch \<noteq> DQ \<and> ch \<noteq> CHR '','' \<longrightarrow>
        parseCSVLine_loop (ch # rest) q cur res = parseCSVLine_loop rest q (cur @ [ch]) res)
   \<and> parseCSVLine_loop [] q cur res = res @ [cur]
   \<and> parseCSVLine (csv_join (map csv_quote (f # fs))) = f # fs
   \<and> parseCSVLine (csv_join (map csv_field (f # fs))) = f # fs
   \<and> map (\<lambda>r. (r ''id'', r ''label'', r ''value'', r ''region''))
        (parseCSV ''id,label,value,region\<newline>1,\"Region, North\",10,5'')
      = [(Some ''1'', Some ''Region, North'', Some ''10'', Some ''5'')]"
proof -
  have toggle: "\<not> (q \<and> take 1 rest = [DQ]) \<longrightarrow>
      parseCSVLine_loop (DQ # rest) q cur res = parseCSVLine_loop rest (\<not> q) cur res"
    by (cases rest; cases q) auto
  have quoted: "parseCSVLine (csv_join (map csv_quote (f # fs))) = f # fs"
    unfolding parseCSVLine_def using loop_join [of csv_quote f fs "[]"] loop_quote by simp
  have needed: "parseCSVLine (csv_join (map csv_field (f # fs))) = f # fs"
    unfolding parseCSVLine_def using loop_join [of csv_field f fs "[]"] loop_field by simp
  have example: "map (\<lambda>r. (r ''id'', r ''label'', r ''value'', r ''region''))
        (parseCSV ''id,label,value,region\<newline>1,\"Region, North\",10,5'')
      = [(Some ''1'', Some ''Region, North'', Some ''10'', Some ''5'')]"
    by code_simp
  show ?thesis using toggle quoted needed example by simp
qed

theorem C6_witness:
  "\<not> (False \<and> take 1 ''\"a'' = [DQ])
   \<and> parseCSVLine_loop (DQ # ''\"a'') False [] [] = parseCSVLine_loop ''\"a'' True [] []
   \<and> CHR ''x'' \<noteq> DQ \<and> CHR ''x'' \<noteq> CHR '',''
   \<and> parseCSVLine_loop (CHR ''x'' # ''\"a'') False [] [] = parseCSVLine_loop ''\"a'' False ''x'' []
   \<and> parseCSVLine (csv_join (map csv_field [''Region, North'', ''say \"hi\"'', ''5'']))
      = [''Region, North'', ''say \"hi\"'', ''5'']"
  using C6_field_splitter [of False "''\"a''" "[]" "[]" "CHR ''x''" "''Region, North''" "[''say \"hi\"'', ''5'']"]
  by simp

section \<open>The index builder\<close>

lemma js_get_set_same: "js_get (js_set obj k e) k = JEntity e"
  by (simp add: js_get_def js_set_def)

lemma buildLookup_snoc: "buildLookup (rows @ [r]) = buildLookup_step (buildLookup rows) r"
  by (simp add: buildLookup_def)

lemma trim_zero: "trim ''0'' = ''0''"
  by (simp add: trim_def is_space_def)

text \<open>
  C5, as amended.  All four fields are trimmed when the last record of a table is indexed: the
  identifier and the label after an absent field became the empty string, the value and the
  region after an absent or empty field became \<^verbatim>\<open>0\<close>.  The entry under the identifier holds
  value, region and label; the entry under the label holds value, region and identifier; an
  empty key is not indexed.
\<close>

theorem C5_index_builder_fields:
  "(let l = buildLookup (rows @ [r]);
        id = trim (case r ''id'' of None \<Rightarrow> [] | Some s \<Rightarrow> s);
        label = trim (case r ''label'' of None \<Rightarrow> [] | Some s \<Rightarrow> s);
        val = (case r ''value'' of None \<Rightarrow> ''0'' | Some s \<Rightarrow> if s = [] then ''0'' else trim s);
        region = (case r ''region'' of None \<Rightarrow> ''0'' | Some s \<Rightarrow> if s = [] then ''0'' else trim s)
    in (id \<noteq> [] \<longrightarrow> js_get (byId l) id =
          JEntity \<lparr>e_value = val, e_region = region, e_label = Some label, e_id = None\<rparr>)
     \<and> (label \<noteq> [] \<longrightarrow> js_get (byLabel l) label =
          JEntity \<lparr>e_value = val, e_region = region, e_label = None, e_id = Some id\<rparr>)
     \<and> (id = [] \<longrightarrow> byId l = byId (buildLookup rows))
     \<and> (label = [] \<longrightarrow> byLabel l = byLabel (buildLookup rows)))"
  by (auto simp: buildLookup_snoc buildLookup_step_def Let_def js_get_set_same or_default_def trim_zero
           split: option.splits)

text \<open>
  The parser hands over the fields as they are, blanks included; the entry holds them trimmed.
\<close>

theorem C5_counterexample:
  "map (\<lambda>r. (r ''id'', r ''value'', r ''region'')) (parseCSV ''id,value,region\<newline>a, 10 ,5 '')
     = [(Some ''a'', Some '' 10 '', Some ''5 '')]
   \<and> js_get (byId (buildLookup (parseCSV ''id,value,region\<newline>a, 10 ,5 ''))) ''a''
     = JEntity \<lparr>e_value = ''10'', e_region = ''5'', e_label = Some [], e_id = None\<rparr>
   \<and> js_get (byId (buildLookup (parseCSV ''id,value,region\<newline>a, 10 ,5 ''))) ''a''
     \<noteq> JEntity \<lparr>e_value = '' 10 '', e_region = ''5 '', e_label = Some [], e_id = None\<rparr>"
  by code_simp

theorem C5_witness:
  "trim (case [''id'' \<mapsto> '' a '', ''value'' \<mapsto> '' 10 ''] ''id'' of None \<Rightarrow> [] | Some s \<Rightarrow> s) = ''a''
   \<and> js_get (byId (buildLookup ([] @ [[''id'' \<mapsto> '' a '', ''value'' \<mapsto> '' 10 '']]))) ''a''
    = JEntity \<lparr>e_value = ''10'', e_region = ''0'', e_label = Some [], e_id = None\<rparr>"
  using C5_index_builder_fields [of "[]" "[''id'' \<mapsto> '' a '', ''value'' \<mapsto> '' 10 '']"]
  by (simp add: Let_def trim_def is_space_def)

section \<open>The resolution of a tag\<close>

text \<open>
  C2, as amended.  When the identifier of the stripped tag is not empty and the index \<open>byId\<close>
  gives an entry for it, the value and the region are those of the entry, \<^verbatim>\<open>0\<close> standing in
  for an empty one, and the long name is the label of the entry when it has one that is not
  empty, else the style label of the tag when there is one that is not empty, else \<^verbatim>\<open>None\<close>;
  the index \<open>byLabel\<close> plays no part.  When these three texts contain no dollar sign, the
  merged tag is the stripped tag with the three attribute lines of these texts, quotes
  escaped, written before the white space that precedes \<^verbatim>\<open>id="\<close>.
\<close>

theorem C2_identifier_first:
  assumes "extract_id tag = Some i" "i \<noteq> []" "js_get (byId lookup) i = JEntity e"
  shows "(let longName = (case e_label e of
                None \<Rightarrow> (case extract_label tag of None \<Rightarrow> ''None'' | Some s \<Rightarrow> if s = [] then ''None'' else s)
              | Some b \<Rightarrow> if b \<noteq> [] then b
                          else (case extract_label tag of None \<Rightarrow> ''None'' | Some s \<Rightarrow> if s = [] then ''None'' else s));
             val = (if e_value e = [] then ''0'' else e_value e);
             region = (if e_region e = [] then ''0'' else e_region e)
         in tag_resolution lookup tag = Some (longName, val, region)
          \<and> (CHR ''$'' \<notin> set (longName @ val @ region) \<longrightarrow>
               (\<exists>pre ws x post. strip_attrs tag = pre @ ws @ x @ post \<and> ws \<noteq> []
                  \<and> (\<forall>c \<in> set ws. is_space c) \<and> map canonicalize x = map canonicalize ''id=\"''
                  \<and> editTag lookup tag = Some (pre @ newlineAttrs longName val region @ ws @ x @ post))))"
proof -
  define longName where "longName = (case e_label e of
                None \<Rightarrow> (case extract_label tag of None \<Rightarrow> ''None'' | Some s \<Rightarrow> if s = [] then ''None'' else s)
              | Some b \<Rightarrow> if b \<noteq> [] then b
                          else (case extract_label tag of None \<Rightarrow> ''None'' | Some s \<Rightarrow> if s = [] then ''None'' else s))"
  define val where "val = (if e_value e = [] then ''0'' else e_value e)"
  define region where "region = (if e_region e = [] then ''0'' else e_region e)"
  have res: "tag_resolution lookup tag = Some (longName, val, region)"
    using assms
    by (simp add: tag_resolution_def resolve_def index_def truthy_str_def truthy_def get_prop_def
          entity_prop_def or_default_def Let_def longName_def val_def region_def split: option.splits)
  have idm: "rx_search idRegex [] (strip_attrs tag) \<noteq> None"
    using assms(1) unfolding extract_id_def by (rule found_group1)
  have "\<exists>pre ws x post. strip_attrs tag = pre @ ws @ x @ post \<and> ws \<noteq> []
                  \<and> (\<forall>c \<in> set ws. is_space c) \<and> map canonicalize x = map canonicalize ''id=\"''
                  \<and> editTag lookup tag = Some (pre @ newlineAttrs longName val region @ ws @ x @ post)"
    if "CHR ''$'' \<notin> set (longName @ val @ region)"
    by (rule editTag_with_id [OF idm res newlineAttrs_plain [OF that]])
  then show ?thesis
    unfolding Let_def longName_def [symmetric] val_def [symmetric] region_def [symmetric]
    using res by blast
qed

text \<open>
  A tag with an empty style label, its entry with an empty label and a value of one blank: the
  merged long name is \<^verbatim>\<open>None\<close> and the merged value \<^verbatim>\<open>0\<close>, not the empty strings.  And an
  entry whose label holds a dollar sign: the merged long name is not that label.
\<close>

theorem C2_counterexample:
  "extract_id ''<path inkscape:label=\"\" id=\"p1\"/>'' = Some ''p1''
   \<and> extract_label ''<path inkscape:label=\"\" id=\"p1\"/>'' = Some []
   \<and> js_get (byId (buildLookup (parseCSV ''id,value,region\<newline>p1, ,2''))) ''p1''
       = JEntity \<lparr>e_value = [], e_region = ''2'', e_label = Some [], e_id = None\<rparr>
   \<and> tag_resolution (buildLookup (parseCSV ''id,value,region\<newline>p1, ,2''))
         ''<path inkscape:label=\"\" id=\"p1\"/>'' = Some (''None'', ''0'', ''2'')
   \<and> run ''<path inkscape:label=\"\" id=\"p1\"/>'' ''id,value,region\<newline>p1, ,2''
       = Some ''<path inkscape:label=\"\"\<newline>    long-name=\"None\"\<newline>    value=\"0\"\<newline>    region=\"2\" id=\"p1\"/>''
   \<and> run ''<path inkscape:label=\"\" id=\"p1\"/>'' ''id,value,region\<newline>p1, ,2''
       \<noteq> Some ''<path inkscape:label=\"\"\<newline>    long-name=\"\"\<newline>    value=\"\"\<newline>    region=\"2\" id=\"p1\"/>''
   \<and> extract_id ''<path id=\"p1\"/>'' = Some ''p1''
   \<and> js_get (byId (buildLookup (parseCSV ''id,label\<newline>p1,R$10''))) ''p1''
       = JEntity \<lparr>e_value = ''0'', e_region = ''0'', e_label = Some ''R$10'', e_id = None\<rparr>
   \<and> run ''<path id=\"p1\"/>'' ''id,label\<newline>p1,R$10''
       = Some ''<path\<newline>    long-name=\"R id=\"0\"\<newline>    value=\"0\"\<newline>    region=\"0\" id=\"p1\"/>''
   \<and> run ''<path id=\"p1\"/>'' ''id,label\<newline>p1,R$10''
       \<noteq> Some ''<path\<newline>    long-name=\"R$10\"\<newline>    value=\"0\"\<newline>    region=\"0\" id=\"p1\"/>''"
  by code_simp

theorem C2_witness:
  "extract_id ''<path inkscape:label=\"Norte\" id=\"p1\"/>'' = Some ''p1''
   \<and> js_get (byId (buildLookup (parseCSV ''id,label,value,region\<newline>p1,North,7,2\<newline>q9,Norte,99,99''))) ''p1''
       = JEntity \<lparr>e_value = ''7'', e_region = ''2'', e_label = Some ''North'', e_id = None\<rparr>
   \<and> js_get (byLabel (buildLookup (parseCSV ''id,label,value,region\<newline>p1,North,7,2\<newline>q9,Norte,99,99''))) ''Norte''
       = JEntity \<lparr>e_value = ''99'', e_region = ''99'', e_label = None, e_id = Some ''q9''\<rparr>
   \<and> CHR ''$'' \<notin> set (''North'' @ ''7'' @ ''2'')
   \<and> tag_resolution (buildLookup (parseCSV ''id,label,value,region\<newline>p1,North,7,2\<newline>q9,Norte,99,99''))
         ''<path inkscape:label=\"Norte\" id=\"p1\"/>'' = Some (''North'', ''7'', ''2'')
   \<and> (\<exists>pre ws x post. strip_attrs ''<path inkscape:label=\"Norte\" id=\"p1\"/>'' = pre @ ws @ x @ post
          \<and> ws \<noteq> [] \<and> (\<forall>c \<in> set ws. is_space c) \<and> map canonicalize x = map canonicalize ''id=\"''
          \<and> editTag (buildLookup (parseCSV ''id,label,value,region\<newline>p1,North,7,2\<newline>q9,Norte,99,99''))
                ''<path inkscape:label=\"Norte\" id=\"p1\"/>''
              = Some (pre @ newlineAttrs ''North'' ''7'' ''2'' @ ws @ x @ post))
   \<and> run ''<path inkscape:label=\"Norte\" id=\"p1\"/>'' ''id,label,value,region\<newline>p1,North,7,2\<newline>q9,Norte,99,99''
       = Some ''<path inkscape:label=\"Norte\"\<newline>    long-name=\"North\"\<newline>    value=\"7\"\<newline>    region=\"2\" id=\"p1\"/>''"
proof -
  let ?T = "''<path inkscape:label=\"Norte\" id=\"p1\"/>''"
  let ?L = "buildLookup (parseCSV ''id,label,value,region\<newline>p1,North,7,2\<newline>q9,Norte,99,99'')"
  have h1: "extract_id ?T = Some ''p1''" by code_simp
  have h2: "''p1'' \<noteq> []" by simp
  have h3: "js_get (byId ?L) ''p1'' = JEntity \<lparr>e_value = ''7'', e_region = ''2'', e_label = Some ''North'', e_id = None\<rparr>"
    by code_simp
  have h4: "js_get (byLabel ?L) ''Norte'' = JEntity \<lparr>e_value = ''99'', e_region = ''99'', e_label = None, e_id = Some ''q9''\<rparr>"
    by code_simp
  have h5: "run ?T ''id,label,value,region\<newline>p1,North,7,2\<newline>q9,Norte,99,99''
       = Some ''<path inkscape:label=\"Norte\"\<newline>    long-name=\"North\"\<newline>    value=\"7\"\<newline>    region=\"2\" id=\"p1\"/>''"
    by code_simp
  have h6: "CHR ''$'' \<notin> set (''North'' @ ''7'' @ ''2'')" by simp
  from C2_identifier_first [OF h1 h2 h3]
  have "tag_resolution ?L ?T = Some (''North'', ''7'', ''2'')
      \<and> (\<exists>pre ws x post. strip_attrs ?T = pre @ ws @ x @ post
          \<and> ws \<noteq> [] \<and> (\<forall>c \<in> set ws. is_space c) \<and> map canonicalize x = map canonicalize ''id=\"''
          \<and> editTag ?L ?T = Some (pre @ newlineAttrs ''North'' ''7'' ''2'' @ ws @ x @ post))"
    by (simp add: Let_def)
  with h1 h3 h4 h5 h6 show ?thesis by simp
qed

text \<open>
  C7, as amended.  When neither the identifier of a target tag has an entry in \<open>byId\<close> nor its
  style label one in \<open>byLabel\<close>, the merge does not fail; the value is \<^verbatim>\<open>0\<close>, the region
  \<^verbatim>\<open>0\<close> and the long name the style label when there is one that is not empty, else
  \<^verbatim>\<open>None\<close>.  The merged tag without identifier is the stripped tag with the three attribute
  lines of these texts before its closing sign; the merged tag with an identifier, when the
  long name contains no dollar sign, is the stripped tag with these lines before the white
  space that precedes \<^verbatim>\<open>id="\<close>.
\<close>

theorem C7_no_match_degradation:
  assumes "is_path_tag tag"
    "case extract_id tag of None \<Rightarrow> True | Some i \<Rightarrow> \<not> is_entity (js_get (byId lookup) i)"
    "case extract_label tag of None \<Rightarrow> True | Some b \<Rightarrow> \<not> is_entity (js_get (byLabel lookup) b)"
  shows "(let longName = (case extract_label tag of None \<Rightarrow> ''None'' | Some s \<Rightarrow> if s = [] then ''None'' else s)
         in tag_resolution lookup tag = Some (longName, ''0'', ''0'')
          \<and> (\<exists>out. editTag lookup tag = Some out)
          \<and> (rx_search idRegex [] (strip_attrs tag) = None \<longrightarrow>
               editTag lookup tag = Some (butlast (strip_attrs tag) @ newlineAttrs longName ''0'' ''0'' @ ''>''))
          \<and> (rx_search idRegex [] (strip_attrs tag) \<noteq> None \<and> CHR ''$'' \<notin> set longName \<longrightarrow>
               (\<exists>pre ws x post. strip_attrs tag = pre @ ws @ x @ post \<and> ws \<noteq> []
                  \<and> (\<forall>c \<in> set ws. is_space c) \<and> map canonicalize x = map canonicalize ''id=\"''
                  \<and> editTag lookup tag = Some (pre @ newlineAttrs longName ''0'' ''0'' @ ws @ x @ post))))"
proof -
  define longName where
    "longName = (case extract_label tag of None \<Rightarrow> ''None'' | Some s \<Rightarrow> if s = [] then ''None'' else s)"
  have res: "tag_resolution lookup tag = Some (longName, ''0'', ''0'')"
    using assms(2,3)
    by (cases "extract_id tag"; cases "extract_label tag";
        cases "js_get (byId lookup) (the (extract_id tag))";
        cases "js_get (byLabel lookup) (the (extract_label tag))")
       (simp_all add: tag_resolution_def resolve_def index_def truthy_str_def truthy_def get_prop_def
          is_entity_def or_default_def Let_def longName_def)
  have tot: "\<exists>out. editTag lookup tag = Some out" by (rule editTag_total)
  have noid: "editTag lookup tag = Some (butlast (strip_attrs tag) @ newlineAttrs longName ''0'' ''0'' @ ''>'')"
    if "rx_search idRegex [] (strip_attrs tag) = None"
    by (rule editTag_without_id [OF assms(1) that res])
  have withid: "\<exists>pre ws x post. strip_attrs tag = pre @ ws @ x @ post \<and> ws \<noteq> []
                  \<and> (\<forall>c \<in> set ws. is_space c) \<and> map canonicalize x = map canonicalize ''id=\"''
                  \<and> editTag lookup tag = Some (pre @ newlineAttrs longName ''0'' ''0'' @ ws @ x @ post)"
    if "rx_search idRegex [] (strip_attrs tag) \<noteq> None" "CHR ''$'' \<notin> set longName"
  proof -
    have "CHR ''$'' \<notin> set (longName @ ''0'' @ ''0'')" using that(2) by simp
    from editTag_with_id [OF that(1) res newlineAttrs_plain [OF this]] show ?thesis .
  qed
  show ?thesis
    unfolding Let_def longName_def [symmetric]
    using res tot noid withid by blast
qed

text \<open>
  An empty style label gives the merged long name \<^verbatim>\<open>None\<close>, not the empty string.  And a
  style label with a dollar sign, in a tag with an identifier that is empty: the merged long
  name is not that label.
\<close>

theorem C7_counterexample:
  "is_path_tag ''<path inkscape:label=\"\">''
   \<and> extract_id ''<path inkscape:label=\"\">'' = None
   \<and> extract_label ''<path inkscape:label=\"\">'' = Some []
   \<and> tag_resolution \<lparr>byId = empty_obj, byLabel = empty_obj\<rparr> ''<path inkscape:label=\"\">''
       = Some (''None'', ''0'', ''0'')
   \<and> run ''<path inkscape:label=\"\">'' []
       = Some ''<path inkscape:label=\"\"\<newline>    long-name=\"None\"\<newline>    value=\"0\"\<newline>    region=\"0\">''
   \<and> run ''<path inkscape:label=\"\">'' []
       \<noteq> Some ''<path inkscape:label=\"\"\<newline>    long-name=\"\"\<newline>    value=\"0\"\<newline>    region=\"0\">''
   \<and> is_path_tag ''<path inkscape:label=\"R$10\" id=\"\"/>''
   \<and> extract_id ''<path inkscape:label=\"R$10\" id=\"\"/>'' = Some []
   \<and> \<not> is_entity (js_get (byId \<lparr>byId = empty_obj, byLabel = empty_obj\<rparr>) [])
   \<and> extract_label ''<path inkscape:label=\"R$10\" id=\"\"/>'' = Some ''R$10''
   \<and> \<not> is_entity (js_get (byLabel \<lparr>byId = empty_obj, byLabel = empty_obj\<rparr>) ''R$10'')
   \<and> run ''<path inkscape:label=\"R$10\" id=\"\"/>'' []
       = Some ''<path inkscape:label=\"R$10\"\<newline>    long-name=\"R id=\"0\"\<newline>    value=\"0\"\<newline>    region=\"0\" id=\"\"/>''
   \<and> run ''<path inkscape:label=\"R$10\" id=\"\"/>'' []
       \<noteq> Some ''<path inkscape:label=\"R$10\"\<newline>    long-name=\"R$10\"\<newline>    value=\"0\"\<newline>    region=\"0\" id=\"\"/>''"
  by code_simp

theorem C7_witness:
  "is_path_tag ''<path inkscape:label=\"Sul\" d=\"M0 0\"/>''
   \<and> extract_id ''<path inkscape:label=\"Sul\" d=\"M0 0\"/>'' = None
   \<and> extract_label ''<path inkscape:label=\"Sul\" d=\"M0 0\"/>'' = Some ''Sul''
   \<and> \<not> is_entity (js_get (byLabel (buildLookup (parseCSV ''id,label,value,region\<newline>p1,North,7,2''))) ''Sul'')
   \<and> rx_search idRegex [] (strip_attrs ''<path inkscape:label=\"Sul\" d=\"M0 0\"/>'') = None
   \<and> tag_resolution (buildLookup (parseCSV ''id,label,value,region\<newline>p1,North,7,2''))
         ''<path inkscape:label=\"Sul\" d=\"M0 0\"/>'' = Some (''Sul'', ''0'', ''0'')
   \<and> editTag (buildLookup (parseCSV ''id,label,value,region\<newline>p1,North,7,2''))
         ''<path inkscape:label=\"Sul\" d=\"M0 0\"/>''
       = Some ''<path inkscape:label=\"Sul\" d=\"M0 0\"/\<newline>    long-name=\"Sul\"\<newline>    value=\"0\"\<newline>    region=\"0\">''
   \<and> is_path_tag ''<path id=\"constructor\" inkscape:label=\"Sul\"/>''
   \<and> extract_id ''<path id=\"constructor\" inkscape:label=\"Sul\"/>'' = Some ''constructor''
   \<and> \<not> is_entity (js_get (byId (buildLookup (parseCSV ''id,label,value,region\<newline>p1,North,7,2''))) ''constructor'')
   \<and> extract_label ''<path id=\"constructor\" inkscape:label=\"Sul\"/>'' = Some ''Sul''
   \<and> rx_search idRegex [] (strip_attrs ''<path id=\"constructor\" inkscape:label=\"Sul\"/>'') \<noteq> None
   \<and> CHR ''$'' \<notin> set ''Sul''
   \<and> (\<exists>pre ws x post. strip_attrs ''<path id=\"constructor\" inkscape:label=\"Sul\"/>'' = pre @ ws @ x @ post
          \<and> ws \<noteq> [] \<and> (\<forall>c \<in> set ws. is_space c) \<and> map canonicalize x = map canonicalize ''id=\"''
          \<and> editTag (buildLookup (parseCSV ''id,label,value,region\<newline>p1,North,7,2''))
                ''<path id=\"constructor\" inkscape:label=\"Sul\"/>''
              = Some (pre @ newlineAttrs ''Sul'' ''0'' ''0'' @ ws @ x @ post))"
proof -
  let ?T = "''<path inkscape:label=\"Sul\" d=\"M0 0\"/>''"
  let ?U = "''<path id=\"constructor\" inkscape:label=\"Sul\"/>''"
  let ?L = "buildLookup (parseCSV ''id,label,value,region\<newline>p1,North,7,2'')"
  have t0: "is_path_tag ?T" by code_simp
  have t1: "extract_id ?T = None" by code_simp
  have t2: "extract_label ?T = Some ''Sul''" by code_simp
  have t3: "rx_search idRegex [] (strip_attrs ?T) = None" by code_simp
  have t4: "strip_attrs ?T = ?T" by code_simp
  have l: "\<not> is_entity (js_get (byLabel ?L) ''Sul'')" by code_simp
  have u0: "is_path_tag ?U" by code_simp
  have u1: "extract_id ?U = Some ''constructor''" by code_simp
  have u2: "extract_label ?U = Some ''Sul''" by code_simp
  have u3: "rx_search idRegex [] (strip_attrs ?U) \<noteq> None" by code_simp
  have i: "\<not> is_entity (js_get (byId ?L) ''constructor'')" by code_simp
  have n: "newlineAttrs ''Sul'' ''0'' ''0'' = ''\<newline>    long-name=\"Sul\"\<newline>    value=\"0\"\<newline>    region=\"0\"''"
    by code_simp
  have a: "tag_resolution ?L ?T = Some (''Sul'', ''0'', ''0'')
      \<and> editTag ?L ?T = Some ''<path inkscape:label=\"Sul\" d=\"M0 0\"/\<newline>    long-name=\"Sul\"\<newline>    value=\"0\"\<newline>    region=\"0\">''"
    using C7_no_match_degradation [where tag = ?T and lookup = ?L, OF t0] t1 t2 t3 t4 l n
    by (simp add: Let_def)
  have b: "\<exists>pre ws x post. strip_attrs ?U = pre @ ws @ x @ post
          \<and> ws \<noteq> [] \<and> (\<forall>c \<in> set ws. is_space c) \<and> map canonicalize x = map canonicalize ''id=\"''
          \<and> editTag ?L ?U = Some (pre @ newlineAttrs ''Sul'' ''0'' ''0'' @ ws @ x @ post)"
    using C7_no_match_degradation [where tag = ?U and lookup = ?L, OF u0] u1 u2 u3 i l
    by (simp add: Let_def)
  have d: "CHR ''$'' \<notin> set ''Sul''" by simp
  show ?thesis using t0 t1 t2 t3 l a u0 u1 u2 u3 i d b by simp
qed


section \<open>What the merger does at three inputs\<close>

text \<open>
  C1.  Merging twice is not merging once.  A tag without identifier whose closing sign follows
  a blank keeps the blank at the first merge and loses it at the second, since the strip pass
  removes the white space before an attribute with it.  A value with a closing sign in it ends
  the tag early at the second merge, which then leaves the old value in place and adds a second
  set of attributes.
\<close>

theorem C1_second_merge_differs:
  "run ''<path d=\"M0 0\" >'' [] = Some ''<path d=\"M0 0\" \<newline>    long-name=\"None\"\<newline>    value=\"0\"\<newline>    region=\"0\">''
   \<and> run ''<path d=\"M0 0\" \<newline>    long-name=\"None\"\<newline>    value=\"0\"\<newline>    region=\"0\">'' []
       = Some ''<path d=\"M0 0\"\<newline>    long-name=\"None\"\<newline>    value=\"0\"\<newline>    region=\"0\">''
   \<and> ''<path d=\"M0 0\"\<newline>    long-name=\"None\"\<newline>    value=\"0\"\<newline>    region=\"0\">''
       \<noteq> ''<path d=\"M0 0\" \<newline>    long-name=\"None\"\<newline>    value=\"0\"\<newline>    region=\"0\">''
   \<and> run ''<path id=\"a\"/>'' ''id,value\<newline>a,x>y''
       = Some ''<path\<newline>    long-name=\"None\"\<newline>    value=\"x>y\"\<newline>    region=\"0\" id=\"a\"/>''
   \<and> run ''<path\<newline>    long-name=\"None\"\<newline>    value=\"x>y\"\<newline>    region=\"0\" id=\"a\"/>'' ''id,value\<newline>a,x>y''
       = Some ''<path\<newline>    value=\"x\<newline>    long-name=\"None\"\<newline>    value=\"0\"\<newline>    region=\"0\">y\"\<newline>    region=\"0\" id=\"a\"/>''"
  by code_simp

text \<open>
  C3.  With an identifier in the tag the attribute lines go through the expansion of the
  replacement string: the label \<^verbatim>\<open>R$10\<close> is written as \<^verbatim>\<open>R id="0\<close>, the reference \<^verbatim>\<open>$1\<close>
  in it being replaced by the matched text.  Without an identifier the same label is written
  as it is.
\<close>

theorem C3_insertion_expands_dollar:
  "extract_id ''<path id=\"p1\"/>'' = Some ''p1''
   \<and> tag_resolution (buildLookup (parseCSV ''id,label\<newline>p1,R$10'')) ''<path id=\"p1\"/>''
       = Some (''R$10'', ''0'', ''0'')
   \<and> run ''<path id=\"p1\"/>'' ''id,label\<newline>p1,R$10''
       = Some ''<path\<newline>    long-name=\"R id=\"0\"\<newline>    value=\"0\"\<newline>    region=\"0\" id=\"p1\"/>''
   \<and> run ''<path id=\"p1\"/>'' ''id,label\<newline>p1,R$10''
       \<noteq> Some (''<path'' @ newlineAttrs ''R$10'' ''0'' ''0'' @ '' id=\"p1\"/>'')
   \<and> run ''<path inkscape:label=\"R$10\"/>'' []
       = Some (''<path inkscape:label=\"R$10\"/'' @ newlineAttrs ''R$10'' ''0'' ''0'' @ ''>'')"
  by code_simp

text \<open>
  C10.  An empty identifier is not looked up, and the attribute lines are placed before it; but
  they go through the same expansion, so the style label \<^verbatim>\<open>R$10\<close> is not written as it is.
\<close>

theorem C10_empty_id_expands_dollar:
  "extract_id ''<path inkscape:label=\"R$10\" id=\"\"/>'' = Some []
   \<and> tag_resolution \<lparr>byId = empty_obj, byLabel = empty_obj\<rparr> ''<path inkscape:label=\"R$10\" id=\"\"/>''
       = Some (''R$10'', ''0'', ''0'')
   \<and> editSvg ''<path inkscape:label=\"R$10\" id=\"\"/>'' \<lparr>byId = empty_obj, byLabel = empty_obj\<rparr>
       = Some ''<path inkscape:label=\"R$10\"\<newline>    long-name=\"R id=\"0\"\<newline>    value=\"0\"\<newline>    region=\"0\" id=\"\"/>''
   \<and> editSvg ''<path inkscape:label=\"R$10\" id=\"\"/>'' \<lparr>byId = empty_obj, byLabel = empty_obj\<rparr>
       \<noteq> Some (''<path inkscape:label=\"R$10\"'' @ newlineAttrs ''R$10'' ''0'' ''0'' @ '' id=\"\"/>'')"
  by code_simp

end
